theory Spec2Isabelle
  imports Main
begin

section \<open>Shared vocabulary\<close>

text \<open>
  The Go file \<^verbatim>\<open>runner/deps.go\<close> is embedded function by function. A Go call either
  returns or panics; \<open>Panic\<close> stands for the run-time panic of a nil dereference or of an
  index out of range.
\<close>

datatype 'a outcome = Return 'a | Panic

text \<open>
  Values of Go's \<^verbatim>\<open>error\<close> interface that the logger and the matcher can meet:
  \<^verbatim>\<open>io.ErrShortWrite\<close>, and errors made by a collaborator (the regexp compiler, an
  \<^verbatim>\<open>io.Writer\<close>), kept by their message.
\<close>

datatype error = ErrShortWrite | Err string

text \<open>
  \<^verbatim>\<open>strings.Contains\<close>: \<open>sub\<close> occurs in \<open>s\<close> as a run of consecutive bytes.
\<close>

fun has_prefix :: "string \<Rightarrow> string \<Rightarrow> bool" where
  "has_prefix s [] = True"
| "has_prefix [] (y # ys) = False"
| "has_prefix (x # xs) (y # ys) = (x = y \<and> has_prefix xs ys)"

fun strings_Contains :: "string \<Rightarrow> string \<Rightarrow> bool" where
  "strings_Contains [] sub = (sub = [])"
| "strings_Contains (x # xs) sub = (has_prefix (x # xs) sub \<or> strings_Contains xs sub)"

section \<open>The pattern cache: \<^verbatim>\<open>matchPat\<close>, \<^verbatim>\<open>matchRe\<close>, \<^verbatim>\<open>MatchString\<close>\<close>

text \<open>
  The two package variables \<^verbatim>\<open>matchPat\<close> and \<^verbatim>\<open>matchRe\<close>; a nil \<^verbatim>\<open>*regexp.Regexp\<close> is
  \<open>None\<close>. The type \<open>'re\<close> is the compiled matcher of package regexp.
\<close>

record 're match_cache =
  matchPat :: string
  matchRe :: "'re option"

text \<open>Both variables start with Go's zero value.\<close>

definition cache_init :: "'re match_cache" where
  "cache_init = \<lparr>matchPat = [], matchRe = None\<rparr>"

text \<open>
  \<^verbatim>\<open>MatchString\<close> (lines 44-53). Package regexp is a parameter: \<open>Compile\<close> is
  \<^verbatim>\<open>regexp.Compile\<close>, which returns either a matcher with a nil error (\<open>Inr\<close>) or a nil
  matcher with an error (\<open>Inl\<close>), and \<open>Match re s\<close> is \<^verbatim>\<open>re.MatchString(s)\<close>.
  The named results \<^verbatim>\<open>(result, err)\<close> are the returned pair, so the bare \<^verbatim>\<open>return\<close> of
  line 49 returns \<open>(False, Some e)\<close>. Line 52 calls a method through \<^verbatim>\<open>matchRe\<close>: on a nil
  pointer that call panics.
\<close>

definition MatchString ::
  "(string \<Rightarrow> error + 're) \<Rightarrow> ('re \<Rightarrow> string \<Rightarrow> bool) \<Rightarrow> string \<Rightarrow> string \<Rightarrow>
     're match_cache \<Rightarrow> 're match_cache \<times> (bool \<times> error option) outcome" where
  "MatchString Compile Match pat str c =
     (let (c1, err) =
        (if matchRe c = None \<or> matchPat c \<noteq> pat then
           (let c' = c\<lparr>matchPat := pat\<rparr> in
            case Compile (matchPat c') of
              Inl e \<Rightarrow> (c'\<lparr>matchRe := None\<rparr>, Some e)
            | Inr re \<Rightarrow> (c'\<lparr>matchRe := Some re\<rparr>, None))
         else (c, None))
      in case err of
           Some e \<Rightarrow> (c1, Return (False, Some e))
         | None \<Rightarrow>
             (case matchRe c1 of
                None \<Rightarrow> (c1, Panic)
              | Some re \<Rightarrow> (c1, Return (Match re str, None))))"

text \<open>The cache after a history of calls, each a pair of \<open>pat\<close> and \<open>str\<close>, from process start.\<close>

definition after_calls ::
  "(string \<Rightarrow> error + 're) \<Rightarrow> ('re \<Rightarrow> string \<Rightarrow> bool) \<Rightarrow> (string \<times> string) list \<Rightarrow>
     're match_cache" where
  "after_calls Compile Match calls =
     foldl (\<lambda>c (pat, str). fst (MatchString Compile Match pat str c)) cache_init calls"

text \<open>What the slot holds once \<open>pat\<close> has been compiled into it.\<close>

definition compiled_slot :: "(string \<Rightarrow> error + 're) \<Rightarrow> string \<Rightarrow> 're match_cache" where
  "compiled_slot Compile pat =
     \<lparr>matchPat = pat,
      matchRe = (case Compile pat of Inl e \<Rightarrow> None | Inr re \<Rightarrow> Some re)\<rparr>"

text \<open>A cached matcher is the one \<open>Compile\<close> gives for the cached pattern.\<close>

definition cache_ok :: "(string \<Rightarrow> error + 're) \<Rightarrow> 're match_cache \<Rightarrow> bool" where
  "cache_ok Compile c =
     (case matchRe c of None \<Rightarrow> True | Some re \<Rightarrow> Compile (matchPat c) = Inr re)"

section \<open>The action logger: \<^verbatim>\<open>testLog\<close>\<close>

subsection \<open>The sinks\<close>

text \<open>
  An \<^verbatim>\<open>io.Writer\<close> that is written to in the end: a file, a pipe, a buffer of the caller.
  Its own state is \<open>state\<close>, of a type \<open>'s\<close> that the logger knows nothing about; \<open>taken\<close>
  is the history of that state, every byte the sink has taken in order, and no method reads
  it.
\<close>

record 's sink =
  taken :: string
  state :: 's

text \<open>
  The two methods package bufio calls on a sink. \<open>io_Write s p\<close> is \<^verbatim>\<open>Write(p)\<close> on the
  state \<open>s\<close>: the state afterwards, the count \<^verbatim>\<open>n\<close> and the error. \<open>io_WriteString s\<close> is
  \<open>None\<close> for a sink whose type has no method \<^verbatim>\<open>WriteString\<close> (it is not an
  \<^verbatim>\<open>io.StringWriter\<close>); the type of a sink is part of its state and no write changes it.
  Otherwise \<^verbatim>\<open>WriteString(s)\<close> gives the state afterwards and either \<open>None\<close>, when it took
  all of \<^verbatim>\<open>s\<close> and returned a nil error, or \<open>Some (n, e)\<close>, when it took \<^verbatim>\<open>n\<close> bytes and
  returned the error \<^verbatim>\<open>e\<close>: a \<^verbatim>\<open>WriteString\<close> that takes less than it is given returns a
  non-nil error, as the contract of \<^verbatim>\<open>io.Writer\<close> requires. A sink is never nil.
\<close>

record 's io_methods =
  io_Write :: "'s \<Rightarrow> string \<Rightarrow> 's \<times> nat \<times> error option"
  io_WriteString :: "'s \<Rightarrow> (string \<Rightarrow> 's \<times> (nat \<times> error) option) option"

text \<open>A call of a method on a sink, with the bytes the sink took added to its history.\<close>

definition sink_Write ::
  "'s io_methods \<Rightarrow> 's sink \<Rightarrow> string \<Rightarrow> 's sink \<times> nat \<times> error option" where
  "sink_Write io k p =
     (let (s', n, e) = io_Write io (state k) p
      in (k\<lparr>taken := taken k @ take n p, state := s'\<rparr>, n, e))"

definition sink_WriteString ::
  "'s io_methods \<Rightarrow> 's sink \<Rightarrow> string \<Rightarrow> ('s sink \<times> (nat \<times> error) option) option" where
  "sink_WriteString io k s =
     (case io_WriteString io (state k) of
        None \<Rightarrow> None
      | Some f \<Rightarrow>
          (let (s', r) = f s
           in Some (k\<lparr>taken := taken k @ (case r of None \<Rightarrow> s | Some (n, e) \<Rightarrow> take n s),
                      state := s'\<rparr>, r)))"

subsection \<open>Package bufio\<close>

text \<open>
  \<^verbatim>\<open>bufio.Writer\<close> of the Go standard library, with the methods the logger calls. The
  fields: the stored error \<^verbatim>\<open>err\<close> of the first write to the sink that failed, after which
  the writer takes nothing more; the buffer, of \<open>defaultBufSize + extra\<close> bytes, of which
  \<open>buf\<close> are the \<^verbatim>\<open>n\<close> bytes held and not yet handed to the sink; and \<^verbatim>\<open>wr\<close>, the address
  of the sink in the store of sinks. A writer made by \<^verbatim>\<open>bufio.NewWriter\<close> has \<open>extra = 0\<close>;
  a writer the caller made with \<^verbatim>\<open>bufio.NewWriterSize\<close> can have more.
\<close>

record bufio_Writer =
  err :: "error option"
  extra :: nat
  buf :: string
  wr :: nat

definition defaultBufSize :: nat where
  "defaultBufSize = 4096"

text \<open>\<^verbatim>\<open>Available\<close>: the bytes of the buffer not in use.\<close>

definition Available :: "bufio_Writer \<Rightarrow> nat" where
  "Available b = (defaultBufSize + extra b) - length (buf b)"

text \<open>
  \<^verbatim>\<open>Flush\<close>. A stored error is returned and nothing is written; an empty buffer is left
  alone. Otherwise the held bytes go to the sink in one \<^verbatim>\<open>Write\<close>; a count short of them
  with a nil error becomes \<^verbatim>\<open>io.ErrShortWrite\<close>; on an error the bytes the sink did not
  take stay in the buffer and the error is stored; on success the buffer is empty.
\<close>

definition bufio_Flush ::
  "'s io_methods \<Rightarrow> bufio_Writer \<Rightarrow> (nat \<Rightarrow> 's sink) \<Rightarrow>
     bufio_Writer \<times> (nat \<Rightarrow> 's sink) \<times> error option" where
  "bufio_Flush io b store =
     (case err b of
        Some e \<Rightarrow> (b, store, Some e)
      | None \<Rightarrow>
          if buf b = [] then (b, store, None)
          else
            (let (k', n, e) = sink_Write io (store (wr b)) (buf b);
                 e' = (if n < length (buf b) \<and> e = None then Some ErrShortWrite else e)
             in case e' of
                  Some x \<Rightarrow> (b\<lparr>err := Some x, buf := drop n (buf b)\<rparr>, store(wr b := k'), Some x)
                | None \<Rightarrow> (b\<lparr>buf := []\<rparr>, store(wr b := k'), None)))"

text \<open>
  \<^verbatim>\<open>WriteByte\<close>. With a stored error the byte is dropped; a full buffer is flushed first,
  and the byte is dropped when that flush fails. The logger ignores what \<^verbatim>\<open>WriteByte\<close> and
  \<^verbatim>\<open>WriteString\<close> return, so the model gives the writer and the sinks afterwards only.
\<close>

definition bufio_WriteByte ::
  "'s io_methods \<Rightarrow> bufio_Writer \<Rightarrow> (nat \<Rightarrow> 's sink) \<Rightarrow> char \<Rightarrow>
     bufio_Writer \<times> (nat \<Rightarrow> 's sink)" where
  "bufio_WriteByte io b store c =
     (case err b of
        Some e \<Rightarrow> (b, store)
      | None \<Rightarrow>
          if Available b \<le> 0 then
            (let (b1, store1, e) = bufio_Flush io b store
             in case e of
                  Some x \<Rightarrow> (b1, store1)
                | None \<Rightarrow> (b1\<lparr>buf := buf b1 @ [c]\<rparr>, store1))
          else (b\<lparr>buf := buf b @ [c]\<rparr>, store))"

text \<open>
  The loop of \<^verbatim>\<open>WriteString\<close>, which runs while the rest of the string does not fit and no
  error is stored. With an empty buffer over a sink that has \<^verbatim>\<open>WriteString\<close>, the rest goes
  to the sink directly and the error of that call is stored; otherwise the buffer is filled
  from the string and flushed. The result is the writer, the sinks and the rest of the
  string when the loop ends. It ends: a round either stores an error, or shortens the
  string, or, when the buffer had no room at all, empties it.
\<close>

function WriteString_loop ::
  "'s io_methods \<Rightarrow> bufio_Writer \<Rightarrow> (nat \<Rightarrow> 's sink) \<Rightarrow> string \<Rightarrow>
     bufio_Writer \<times> (nat \<Rightarrow> 's sink) \<times> string" where
  "WriteString_loop io b store s =
     (if length s > Available b \<and> err b = None then
        (case (if buf b = [] then sink_WriteString io (store (wr b)) s else None) of
           Some (k', r) \<Rightarrow>
             (case r of
                None \<Rightarrow> WriteString_loop io b (store(wr b := k')) []
              | Some (n, e) \<Rightarrow>
                  WriteString_loop io (b\<lparr>err := Some e\<rparr>) (store(wr b := k')) (drop n s))
         | None \<Rightarrow>
             (let n = min (length s) (Available b);
                  b1 = b\<lparr>buf := buf b @ take n s\<rparr>;
                  (b2, store2, e) = bufio_Flush io b1 store
              in WriteString_loop io b2 store2 (drop n s)))
      else (b, store, s))"
  by pat_completeness auto
termination
proof -
  have room: "\<exists>y. err b' = Some y"
    if "(b', store', e) = bufio_Flush io b store" and "Available b' = 0"
    for b' :: bufio_Writer and store' :: "nat \<Rightarrow> 's sink" and e io b store
  proof (rule ccontr)
    assume "\<nexists>y. err b' = Some y"
    then have "err b' = None" by simp
    with that(1) have "buf b' = []"
      by (auto simp: bufio_Flush_def Let_def split: option.splits prod.splits if_splits)
    with that(2) show False by (simp add: Available_def defaultBufSize_def)
  qed
  show ?thesis
    by (relation "measures [\<lambda>(io, b, store, s). if err b = None then 1 else 0,
                             \<lambda>(io, b, store, s). length s,
                             \<lambda>(io, b, store, s). if Available b = 0 then 1 else 0]")
       (auto dest: room)
qed

declare WriteString_loop.simps [simp del]

text \<open>
  \<^verbatim>\<open>WriteString\<close>: the loop, and then, unless an error is stored, the rest of the string is
  copied into the buffer, where it fits.
\<close>

definition bufio_WriteString ::
  "'s io_methods \<Rightarrow> bufio_Writer \<Rightarrow> (nat \<Rightarrow> 's sink) \<Rightarrow> string \<Rightarrow>
     bufio_Writer \<times> (nat \<Rightarrow> 's sink)" where
  "bufio_WriteString io b store s =
     (let (b1, store1, rest) = WriteString_loop io b store s
      in case err b1 of
           Some e \<Rightarrow> (b1, store1)
         | None \<Rightarrow> (b1\<lparr>buf := buf b1 @ take (Available b1) rest\<rparr>, store1))"

text \<open>
  The \<^verbatim>\<open>io.Writer\<close> a caller passes to \<^verbatim>\<open>StartTestLog\<close>. \<open>Buffered a\<close> is a
  \<^verbatim>\<open>*bufio.Writer\<close> of the caller with a buffer of at least \<open>defaultBufSize\<close> bytes; it lives
  at address \<open>a\<close> of the caller's writers, where the caller keeps reaching it. \<open>Plain a\<close> is
  any other writer, the sink at address \<open>a\<close>.
\<close>

datatype io_Writer = Plain nat | Buffered nat

text \<open>
  What \<^verbatim>\<open>log.w\<close> points to: a writer that \<^verbatim>\<open>bufio.NewWriter\<close> made, which nothing but the
  logger refers to and which is therefore held here by value, or a writer of the caller, by
  its address.
\<close>

datatype installed = Own bufio_Writer | Given nat

text \<open>
  \<^verbatim>\<open>bufio.NewWriter(w)\<close> is \<^verbatim>\<open>NewWriterSize(w, 4096)\<close>: when \<^verbatim>\<open>w\<close> is already a
  \<^verbatim>\<open>*bufio.Writer\<close> with a buffer of at least that size it returns \<^verbatim>\<open>w\<close> itself, with
  whatever it holds; otherwise it returns a new writer over \<^verbatim>\<open>w\<close> with an empty buffer of
  4096 bytes and no error.
\<close>

fun bufio_NewWriter :: "io_Writer \<Rightarrow> installed" where
  "bufio_NewWriter (Plain a) = Own \<lparr>err = None, extra = 0, buf = [], wr = a\<rparr>"
| "bufio_NewWriter (Buffered a) = Given a"

subsection \<open>The logger\<close>

text \<open>
  The struct \<^verbatim>\<open>testLog\<close> (lines 75-79). Calls are taken one at a time, so the mutex
  \<^verbatim>\<open>mu\<close> has no field here. The field \<^verbatim>\<open>set\<close> is \<open>set'\<close>; a nil \<^verbatim>\<open>w\<close> is \<open>None\<close>.
\<close>

record testLog =
  w :: "installed option"
  set' :: bool

text \<open>
  What the logger can reach: the package variable \<^verbatim>\<open>log\<close>, the sinks, the caller's
  buffered writers, and the calls made to \<^verbatim>\<open>SetLogger\<close>.
\<close>

record 's process =
  log :: testLog
  sinks :: "nat \<Rightarrow> 's sink"
  writers :: "nat \<Rightarrow> bufio_Writer"
  SetLogger_calls :: nat

text \<open>
  A method call through the pointer \<^verbatim>\<open>log.w\<close>: the writer it points to is read, the
  method \<open>f\<close> runs on it and on the sinks, and the writer is stored back where it lives.
\<close>

fun on_writer ::
  "(bufio_Writer \<Rightarrow> (nat \<Rightarrow> 's sink) \<Rightarrow> bufio_Writer \<times> (nat \<Rightarrow> 's sink)) \<Rightarrow>
     installed \<Rightarrow> 's process \<Rightarrow> installed \<times> 's process" where
  "on_writer f (Own b) p =
     (let (b', store') = f b (sinks p) in (Own b', p\<lparr>sinks := store'\<rparr>))"
| "on_writer f (Given a) p =
     (let (b', store') = f (writers p a) (sinks p)
      in (Given a, p\<lparr>sinks := store', writers := (writers p)(a := b')\<rparr>))"

text \<open>\<^verbatim>\<open>add\<close> (lines 98-112), on the package variable \<^verbatim>\<open>log\<close>.\<close>

definition add :: "'s io_methods \<Rightarrow> string \<Rightarrow> string \<Rightarrow> 's process \<Rightarrow> 's process" where
  "add io op name p =
     (if strings_Contains name ''\<newline>'' \<or> name = [] then p
      else
        (case w (log p) of
           None \<Rightarrow> p
         | Some i0 \<Rightarrow>
             (let (i1, p1) = on_writer (\<lambda>b store. bufio_WriteString io b store op) i0 p;
                  (i2, p2) = on_writer (\<lambda>b store. bufio_WriteByte io b store CHR '' '') i1 p1;
                  (i3, p3) = on_writer (\<lambda>b store. bufio_WriteString io b store name) i2 p2;
                  (i4, p4) = on_writer (\<lambda>b store. bufio_WriteByte io b store CHR ''\<newline>'') i3 p3
              in p4\<lparr>log := (log p4)\<lparr>w := Some i4\<rparr>\<rparr>)))"

text \<open>The four methods of lines 81-95.\<close>

definition Getenv :: "'s io_methods \<Rightarrow> string \<Rightarrow> 's process \<Rightarrow> 's process" where
  "Getenv io key p = add io ''getenv'' key p"

definition Open :: "'s io_methods \<Rightarrow> string \<Rightarrow> 's process \<Rightarrow> 's process" where
  "Open io name p = add io ''open'' name p"

definition Stat :: "'s io_methods \<Rightarrow> string \<Rightarrow> 's process \<Rightarrow> 's process" where
  "Stat io name p = add io ''stat'' name p"

definition Chdir :: "'s io_methods \<Rightarrow> string \<Rightarrow> 's process \<Rightarrow> 's process" where
  "Chdir io name p = add io ''chdir'' name p"

text \<open>
  Modelled from the spec: \<^verbatim>\<open>SetLogger\<close> is a function of this package that the file does
  not define. The spec has it put the logger into a process-wide registry that takes one
  logger; the model counts the registrations.
\<close>

definition SetLogger :: "'s process \<Rightarrow> 's process" where
  "SetLogger p = p\<lparr>SetLogger_calls := Suc (SetLogger_calls p)\<rparr>"

text \<open>
  At process start \<^verbatim>\<open>log\<close> is the zero value and nothing is registered; the sinks and the
  caller's writers are what the caller has made.
\<close>

definition process_init :: "(nat \<Rightarrow> 's sink) \<Rightarrow> (nat \<Rightarrow> bufio_Writer) \<Rightarrow> 's process" where
  "process_init store heap =
     \<lparr>log = \<lparr>w = None, set' = False\<rparr>, sinks = store, writers = heap, SetLogger_calls = 0\<rparr>"

text \<open>
  \<^verbatim>\<open>StartTestLog\<close> (lines 116-129). Line 118 stores the result of \<^verbatim>\<open>bufio.NewWriter\<close> in
  \<^verbatim>\<open>log.w\<close>, and line 126 writes the header through \<^verbatim>\<open>log.w\<close>, which is that result.
\<close>

definition StartTestLog :: "'s io_methods \<Rightarrow> io_Writer \<Rightarrow> 's process \<Rightarrow> 's process" where
  "StartTestLog io sink p =
     (let p1 = p\<lparr>log := (log p)\<lparr>w := Some (bufio_NewWriter sink)\<rparr>\<rparr> in
      if \<not> set' (log p1) then
        (let p2 = p1\<lparr>log := (log p1)\<lparr>set' := True\<rparr>\<rparr>;
             p3 = SetLogger p2;
             (i, p4) = on_writer
                         (\<lambda>b store. bufio_WriteString io b store (''# test log\<newline>''))
                         (bufio_NewWriter sink) p3
         in p4\<lparr>log := (log p4)\<lparr>w := Some i\<rparr>\<rparr>)
      else p1)"

text \<open>The writer \<^verbatim>\<open>log.w\<close> points to, read and stored through the pointer.\<close>

fun installed_writer :: "'s process \<Rightarrow> bufio_Writer option" where
  "installed_writer p =
     (case w (log p) of
        None \<Rightarrow> None
      | Some (Own b) \<Rightarrow> Some b
      | Some (Given a) \<Rightarrow> Some (writers p a))"

fun set_installed :: "bufio_Writer \<Rightarrow> 's process \<Rightarrow> 's process" where
  "set_installed b p =
     (case w (log p) of
        None \<Rightarrow> p
      | Some (Own b0) \<Rightarrow> p\<lparr>log := (log p)\<lparr>w := Some (Own b)\<rparr>\<rparr>
      | Some (Given a) \<Rightarrow> p\<lparr>writers := (writers p)(a := b)\<rparr>)"

text \<open>
  \<^verbatim>\<open>StopTestLog\<close> (lines 131-137). \<^verbatim>\<open>Flush\<close> reads a field of its receiver first, so on a
  nil \<^verbatim>\<open>log.w\<close> line 134 panics, before line 135.
\<close>

definition StopTestLog ::
  "'s io_methods \<Rightarrow> 's process \<Rightarrow> 's process \<times> error option outcome" where
  "StopTestLog io p =
     (case installed_writer p of
        None \<Rightarrow> (p, Panic)
      | Some b \<Rightarrow>
          (let (b', store', e) = bufio_Flush io b (sinks p);
               p1 = set_installed b' (p\<lparr>sinks := store'\<rparr>)
           in (p1\<lparr>log := (log p1)\<lparr>w := None\<rparr>\<rparr>, Return e)))"

text \<open>
  The calls a process can make on its logger, and the state after one call and after a
  list of them. A call that panics leaves the state as it found it.
\<close>

datatype log_call =
  CallGetenv string | CallOpen string | CallStat string | CallChdir string
| CallStartTestLog io_Writer | CallStopTestLog

fun step :: "'s io_methods \<Rightarrow> 's process \<Rightarrow> log_call \<Rightarrow> 's process" where
  "step io p (CallGetenv key) = Getenv io key p"
| "step io p (CallOpen name) = Open io name p"
| "step io p (CallStat name) = Stat io name p"
| "step io p (CallChdir name) = Chdir io name p"
| "step io p (CallStartTestLog sink) = StartTestLog io sink p"
| "step io p CallStopTestLog = fst (StopTestLog io p)"

definition run :: "'s io_methods \<Rightarrow> 's process \<Rightarrow> log_call list \<Rightarrow> 's process" where
  "run io p calls = foldl (step io) p calls"

fun is_record_call :: "log_call \<Rightarrow> bool" where
  "is_record_call (CallStartTestLog sink) = False"
| "is_record_call CallStopTestLog = False"
| "is_record_call c = True"

fun is_start :: "log_call \<Rightarrow> bool" where
  "is_start (CallStartTestLog sink) = True"
| "is_start c = False"

subsection \<open>What a write does to the stream\<close>

text \<open>
  What a method of the writer \<open>b\<close> that is given the bytes \<open>d\<close> may do, \<open>r\<close> being the writer
  and the sinks afterwards: the writer keeps its sink and its size; no other sink changes;
  a writer with a stored error and the sinks are left as they were; and when no error is
  stored afterwards, none was before, and the bytes the sink has taken followed by the
  bytes the writer holds have grown by \<open>d\<close>.
\<close>

definition streamed ::
  "bufio_Writer \<Rightarrow> (nat \<Rightarrow> 's sink) \<Rightarrow> string \<Rightarrow> bufio_Writer \<times> (nat \<Rightarrow> 's sink) \<Rightarrow> bool" where
  "streamed b store d r =
     (wr (fst r) = wr b \<and> extra (fst r) = extra b \<and>
      (\<forall>a. a \<noteq> wr b \<longrightarrow> snd r a = store a) \<and>
      (err b \<noteq> None \<longrightarrow> r = (b, store)) \<and>
      (err (fst r) = None \<longrightarrow>
         err b = None \<and>
         taken (snd r (wr b)) @ buf (fst r) = taken (store (wr b)) @ buf b @ d))"


text \<open>The four writes of lines 108-111 on one writer.\<close>

definition bufio_line ::
  "'s io_methods \<Rightarrow> bufio_Writer \<Rightarrow> (nat \<Rightarrow> 's sink) \<Rightarrow> string \<Rightarrow> string \<Rightarrow>
     bufio_Writer \<times> (nat \<Rightarrow> 's sink)" where
  "bufio_line io b store op name =
     (let (b1, store1) = bufio_WriteString io b store op;
          (b2, store2) = bufio_WriteByte io b1 store1 CHR '' '';
          (b3, store3) = bufio_WriteString io b2 store2 name
      in bufio_WriteByte io b3 store3 CHR ''\<newline>'')"

section \<open>Corpus validation: \<^verbatim>\<open>CheckCorpus\<close>\<close>

text \<open>
  An error made by \<^verbatim>\<open>fmt.Errorf\<close>: the format and its arguments, an integer or a slice of
  \<^verbatim>\<open>reflect.Type\<close>. A nil \<^verbatim>\<open>reflect.Type\<close> is \<open>None\<close>.
\<close>

datatype 't fmt_arg = ArgInt int | ArgTypes "'t option list"

datatype 't fmt_error = Errorf string "'t fmt_arg list"

text \<open>
  The loop of lines 149-151 over the rest of \<^verbatim>\<open>vals\<close>, at index \<open>valsI\<close>; \<open>TypeOf\<close> is
  \<^verbatim>\<open>reflect.TypeOf\<close>, and \<^verbatim>\<open>valsT\<close> starts as \<^verbatim>\<open>len(vals)\<close> nil types (line 148). A
  store past the end of \<^verbatim>\<open>valsT\<close> panics.
\<close>

fun fill_valsT ::
  "('v \<Rightarrow> 't option) \<Rightarrow> 'v list \<Rightarrow> nat \<Rightarrow> 't option list \<Rightarrow> 't option list outcome" where
  "fill_valsT TypeOf [] valsI valsT = Return valsT"
| "fill_valsT TypeOf (v # vs) valsI valsT =
     (if valsI < length valsT then fill_valsT TypeOf vs (Suc valsI) (valsT[valsI := TypeOf v])
      else Panic)"

text \<open>The loop of lines 152-156 from index \<open>i\<close>. A read past the end of \<^verbatim>\<open>valsT\<close> panics.\<close>

function check_types ::
  "'t option list \<Rightarrow> 't option list \<Rightarrow> nat \<Rightarrow> 't fmt_error option outcome" where
  "check_types valsT types i =
     (if i < length types then
        (if i < length valsT then
           (if valsT ! i \<noteq> types ! i then
              Return (Some (Errorf ''mismatched types in corpus entry: %v, want %v''
                                   [ArgTypes valsT, ArgTypes types]))
            else check_types valsT types (Suc i))
         else Panic)
      else Return None)"
  by pat_completeness auto
termination
  by (relation "measure (\<lambda>(valsT, types, i). length types - i)") auto

text \<open>\<^verbatim>\<open>CheckCorpus\<close> (lines 144-158).\<close>

definition CheckCorpus ::
  "('v \<Rightarrow> 't option) \<Rightarrow> 'v list \<Rightarrow> 't option list \<Rightarrow> 't fmt_error option outcome" where
  "CheckCorpus TypeOf vals types =
     (if length vals \<noteq> length types then
        Return (Some (Errorf ''wrong number of values in corpus entry: %d, want %d''
                             [ArgInt (int (length vals)), ArgInt (int (length types))]))
      else
        (case fill_valsT TypeOf vals 0 (replicate (length vals) None) of
           Panic \<Rightarrow> Panic
         | Return valsT \<Rightarrow> check_types valsT types 0))"

section \<open>Collaborators to run the model with\<close>

subsection \<open>A matcher\<close>

text \<open>
  A stand-in for package regexp on the patterns that are plain text: a pattern without
  metacharacters compiles to itself and matches every string that contains it; every other
  pattern is rejected here.
\<close>

definition metachars :: "char set" where
  "metachars =
     {CHR 0x5C, CHR ''.'', CHR ''+'', CHR ''*'', CHR ''?'', CHR ''('', CHR '')'', CHR ''|'',
      CHR ''['', CHR '']'', CHR ''{'', CHR ''}'', CHR ''^'', CHR ''$''}"

definition literal_Compile :: "string \<Rightarrow> error + string" where
  "literal_Compile pat =
     (if \<exists>ch \<in> set pat. ch \<in> metachars then Inl (Err ''error parsing regexp'')
      else Inr pat)"

definition literal_Match :: "string \<Rightarrow> string \<Rightarrow> bool" where
  "literal_Match re s = strings_Contains s re"

subsection \<open>A sink\<close>

text \<open>
  A file with room for a number of bytes; its state is the room left. A write that does not
  fit takes what fits and fails. The file has \<^verbatim>\<open>WriteString\<close>, as \<^verbatim>\<open>*os.File\<close> has.
\<close>

definition file_io :: "nat io_methods" where
  "file_io =
     \<lparr>io_Write = (\<lambda>room p.
        if length p \<le> room then (room - length p, length p, None)
        else (0, room, Some (Err ''no space left on device''))),
      io_WriteString = (\<lambda>room. Some (\<lambda>s.
        if length s \<le> room then (room - length s, None)
        else (0, Some (room, Err ''no space left on device''))))\<rparr>"

text \<open>A store in which every address holds an empty file with \<open>room\<close> bytes of room.\<close>

definition empty_files :: "nat \<Rightarrow> nat \<Rightarrow> nat sink" where
  "empty_files room = (\<lambda>a. \<lparr>taken = [], state = room\<rparr>)"

text \<open>
  The caller's buffered writers: at every address \<open>a\<close> an empty writer of 4096 bytes over
  the sink \<open>a\<close>.
\<close>

definition empty_writers :: "nat \<Rightarrow> bufio_Writer" where
  "empty_writers = (\<lambda>a. \<lparr>err = None, extra = 0, buf = [], wr = a\<rparr>)"

subsection \<open>Values and their types\<close>

text \<open>A few of Go's values and their types; \<^verbatim>\<open>reflect.TypeOf(nil)\<close> is nil.\<close>

datatype go_value = GoNil | GoInt int | GoString string | GoBool bool

datatype go_type = T_int | T_string | T_bool

fun reflect_TypeOf :: "go_value \<Rightarrow> go_type option" where
  "reflect_TypeOf GoNil = None"
| "reflect_TypeOf (GoInt n) = Some T_int"
| "reflect_TypeOf (GoString s) = Some T_string"
| "reflect_TypeOf (GoBool b) = Some T_bool"

section \<open>Properties of the pattern cache\<close>

lemma MatchString_miss:
  "matchRe c = None \<or> matchPat c \<noteq> pat \<Longrightarrow>
   MatchString Compile Match pat str c =
     (compiled_slot Compile pat,
      case Compile pat of
        Inl e \<Rightarrow> Return (False, Some e)
      | Inr re \<Rightarrow> Return (Match re str, None))"
  by (auto simp: MatchString_def compiled_slot_def Let_def split: sum.splits)

lemma MatchString_hit:
  "matchRe c = Some re \<Longrightarrow> matchPat c = pat \<Longrightarrow>
   MatchString Compile Match pat str c = (c, Return (Match re str, None))"
  by (simp add: MatchString_def)

lemma compiled_slot_ok: "cache_ok Compile (compiled_slot Compile pat)"
  by (simp add: cache_ok_def compiled_slot_def split: sum.splits)

lemma MatchString_cache_ok:
  "cache_ok Compile c \<Longrightarrow> cache_ok Compile (fst (MatchString Compile Match pat str c))"
proof (cases "matchRe c = None \<or> matchPat c \<noteq> pat")
  case True
  then show ?thesis by (simp add: MatchString_miss compiled_slot_ok)
next
  case False
  then obtain re where "matchRe c = Some re" "matchPat c = pat" by auto
  then show "cache_ok Compile c \<Longrightarrow> ?thesis" by (simp add: MatchString_hit)
qed

lemma foldl_calls_cache_ok:
  "cache_ok Compile c \<Longrightarrow>
   cache_ok Compile (foldl (\<lambda>c (pat, str). fst (MatchString Compile Match pat str c)) c calls)"
  by (induction calls arbitrary: c) (auto simp: MatchString_cache_ok)

lemma after_calls_cache_ok: "cache_ok Compile (after_calls Compile Match calls)"
  unfolding after_calls_def
  by (rule foldl_calls_cache_ok) (simp add: cache_ok_def cache_init_def)

lemma MatchString_matchPat: "matchPat (fst (MatchString Compile Match pat str c)) = pat"
proof (cases "matchRe c = None \<or> matchPat c \<noteq> pat")
  case True
  then show ?thesis by (simp add: MatchString_miss compiled_slot_def)
next
  case False
  then obtain re where "matchRe c = Some re" "matchPat c = pat" by auto
  then show ?thesis by (simp add: MatchString_hit)
qed

text \<open>
  C4. In every state the cache can reach from process start: a call whose pattern is not
  the cached one, or that finds no cached matcher, leaves the slot holding the pattern and
  what compiling it gave; when the pattern compiles the call returns the match of \<open>str\<close>
  against the matcher compiled from \<open>pat\<close>, with a nil error, and that matcher is cached;
  and a call that finds a matcher cached for \<open>pat\<close> leaves the slot alone and answers with
  that matcher, which is the one compiled from \<open>pat\<close>.
\<close>

theorem MatchString_recompiles_then_matches:
  fixes Compile :: "string \<Rightarrow> error + 're" and Match calls
  defines "c \<equiv> after_calls Compile Match calls"
  shows
    "(matchRe c = None \<or> matchPat c \<noteq> pat \<longrightarrow>
        fst (MatchString Compile Match pat str c) = compiled_slot Compile pat) \<and>
     (\<forall>re. Compile pat = Inr re \<longrightarrow>
        snd (MatchString Compile Match pat str c) = Return (Match re str, None) \<and>
        matchRe (fst (MatchString Compile Match pat str c)) = Some re) \<and>
     (matchRe c \<noteq> None \<and> matchPat c = pat \<longrightarrow>
        fst (MatchString Compile Match pat str c) = c \<and>
        (\<exists>re. matchRe c = Some re \<and> Compile pat = Inr re \<and>
              snd (MatchString Compile Match pat str c) = Return (Match re str, None)))"
proof (intro conjI allI impI)
  assume "matchRe c = None \<or> matchPat c \<noteq> pat"
  then show "fst (MatchString Compile Match pat str c) = compiled_slot Compile pat"
    by (simp add: MatchString_miss)
next
  fix re
  assume ok: "Compile pat = Inr re"
  have inv: "cache_ok Compile c"
    unfolding c_def by (rule after_calls_cache_ok)
  show "snd (MatchString Compile Match pat str c) = Return (Match re str, None)"
  proof (cases "matchRe c = None \<or> matchPat c \<noteq> pat")
    case True
    then show ?thesis using ok by (simp add: MatchString_miss)
  next
    case False
    then obtain re' where hit: "matchRe c = Some re'" "matchPat c = pat" by auto
    with inv ok have "re' = re" by (simp add: cache_ok_def)
    with hit show ?thesis by (simp add: MatchString_hit)
  qed
  show "matchRe (fst (MatchString Compile Match pat str c)) = Some re"
  proof (cases "matchRe c = None \<or> matchPat c \<noteq> pat")
    case True
    then show ?thesis using ok by (simp add: MatchString_miss compiled_slot_def)
  next
    case False
    then obtain re' where hit: "matchRe c = Some re'" "matchPat c = pat" by auto
    with inv ok have "re' = re" by (simp add: cache_ok_def)
    with hit show ?thesis by (simp add: MatchString_hit)
  qed
next
  assume "matchRe c \<noteq> None \<and> matchPat c = pat"
  then obtain re where hit: "matchRe c = Some re" "matchPat c = pat" by auto
  have inv: "cache_ok Compile c"
    unfolding c_def by (rule after_calls_cache_ok)
  with hit have "Compile pat = Inr re" by (simp add: cache_ok_def)
  with hit show "fst (MatchString Compile Match pat str c) = c"
    and "\<exists>re. matchRe c = Some re \<and> Compile pat = Inr re \<and>
              snd (MatchString Compile Match pat str c) = Return (Match re str, None)"
    by (simp_all add: MatchString_hit)
qed

theorem MatchString_recompiles_then_matches_witness:
  "matchRe (after_calls literal_Compile literal_Match []) = None \<and>
   literal_Compile ''Test'' = Inr ''Test'' \<and>
   MatchString literal_Compile literal_Match ''Test'' ''TestFoo''
     (after_calls literal_Compile literal_Match []) =
     (\<lparr>matchPat = ''Test'', matchRe = Some ''Test''\<rparr>, Return (True, None)) \<and>
   matchRe (after_calls literal_Compile literal_Match [(''Test'', ''TestFoo'')]) \<noteq> None \<and>
   matchPat (after_calls literal_Compile literal_Match [(''Test'', ''TestFoo'')]) = ''Test'' \<and>
   MatchString literal_Compile literal_Match ''Test'' ''BenchFoo''
     (after_calls literal_Compile literal_Match [(''Test'', ''TestFoo'')]) =
     (\<lparr>matchPat = ''Test'', matchRe = Some ''Test''\<rparr>, Return (False, None))"
proof -
  have c0: "after_calls literal_Compile literal_Match [] = \<lparr>matchPat = [], matchRe = None\<rparr>"
    by (simp add: after_calls_def cache_init_def)
  have t: "literal_Compile ''Test'' = Inr ''Test''"
    by (simp add: literal_Compile_def metachars_def)
  have c1: "after_calls literal_Compile literal_Match [(''Test'', ''TestFoo'')] =
            \<lparr>matchPat = ''Test'', matchRe = Some ''Test''\<rparr>"
    by (simp add: after_calls_def cache_init_def MatchString_def t)
  have m1: "literal_Match ''Test'' ''TestFoo''" by (simp add: literal_Match_def)
  have m2: "\<not> literal_Match ''Test'' ''BenchFoo''" by (simp add: literal_Match_def)
  show ?thesis
    using MatchString_recompiles_then_matches
            [of literal_Compile literal_Match "[]" "''Test''" "''TestFoo''"]
          MatchString_recompiles_then_matches
            [of literal_Compile literal_Match "[(''Test'', ''TestFoo'')]" "''Test''" "''BenchFoo''"]
    by (simp add: c0 c1 t m1 m2 compiled_slot_def prod_eq_iff)
qed

text \<open>
  C5. In every state the cache can reach from process start, a call with a pattern that
  does not compile returns \<open>False\<close> with the compilation error, whatever \<open>str\<close> and the
  matching function are, and leaves the slot holding the pattern and a nil matcher. The
  next call, with any pattern, the same one included, does not panic and compiles its
  pattern afresh: it returns that pattern's compilation error, or the match against the
  matcher just compiled.
\<close>

theorem MatchString_compile_error:
  fixes Compile :: "string \<Rightarrow> error + 're" and Match calls
  defines "c \<equiv> after_calls Compile Match calls"
  assumes bad: "Compile pat = Inl e"
  shows
    "(\<forall>Match' str'. snd (MatchString Compile Match' pat str' c) = Return (False, Some e)) \<and>
     fst (MatchString Compile Match pat str c) = \<lparr>matchPat = pat, matchRe = None\<rparr> \<and>
     (\<forall>pat2 str2.
        snd (MatchString Compile Match pat2 str2 (fst (MatchString Compile Match pat str c))) =
          (case Compile pat2 of
             Inl e2 \<Rightarrow> Return (False, Some e2)
           | Inr re2 \<Rightarrow> Return (Match re2 str2, None)))"
proof -
  have inv: "cache_ok Compile c"
    unfolding c_def by (rule after_calls_cache_ok)
  have miss: "matchRe c = None \<or> matchPat c \<noteq> pat"
  proof (rule ccontr)
    assume "\<not> ?thesis"
    then obtain re where "matchRe c = Some re" "matchPat c = pat" by auto
    with inv bad show False by (simp add: cache_ok_def)
  qed
  have res: "snd (MatchString Compile M pat s c) = Return (False, Some e)" for M s
    using miss bad by (simp add: MatchString_miss)
  have st: "fst (MatchString Compile Match pat str c) = \<lparr>matchPat = pat, matchRe = None\<rparr>"
    using miss bad by (simp add: MatchString_miss compiled_slot_def)
  have nxt: "snd (MatchString Compile Match pat2 str2 \<lparr>matchPat = pat, matchRe = None\<rparr>) =
          (case Compile pat2 of
             Inl e2 \<Rightarrow> Return (False, Some e2)
           | Inr re2 \<Rightarrow> Return (Match re2 str2, None))" for pat2 str2
    by (simp add: MatchString_miss)
  show ?thesis using res st nxt by simp
qed

theorem MatchString_compile_error_witness:
  "literal_Compile ''('' = Inl (Err ''error parsing regexp'') \<and>
   MatchString literal_Compile literal_Match ''('' ''TestFoo''
     (after_calls literal_Compile literal_Match [(''Test'', ''TestFoo'')]) =
     (\<lparr>matchPat = ''('', matchRe = None\<rparr>, Return (False, Some (Err ''error parsing regexp''))) \<and>
   snd (MatchString literal_Compile literal_Match ''('' ''TestFoo''
     (fst (MatchString literal_Compile literal_Match ''('' ''TestFoo''
       (after_calls literal_Compile literal_Match [(''Test'', ''TestFoo'')])))) =
     Return (False, Some (Err ''error parsing regexp'')) \<and>
   snd (MatchString literal_Compile literal_Match ''Test'' ''TestFoo''
     (fst (MatchString literal_Compile literal_Match ''('' ''TestFoo''
       (after_calls literal_Compile literal_Match [(''Test'', ''TestFoo'')])))) =
     Return (True, None)"
proof -
  have bad: "literal_Compile ''('' = Inl (Err ''error parsing regexp'')"
    by (simp add: literal_Compile_def metachars_def)
  have t: "literal_Compile ''Test'' = Inr ''Test''"
    by (simp add: literal_Compile_def metachars_def)
  have m: "literal_Match ''Test'' ''TestFoo''" by (simp add: literal_Match_def)
  note inst = MatchString_compile_error
            [where Compile = literal_Compile and pat = "''(''" and Match = literal_Match
               and calls = "[(''Test'', ''TestFoo'')]" and str = "''TestFoo''", OF bad]
  from inst have r: "snd (MatchString literal_Compile literal_Match ''('' ''TestFoo''
      (after_calls literal_Compile literal_Match [(''Test'', ''TestFoo'')])) =
      Return (False, Some (Err ''error parsing regexp''))"
    by blast
  from inst have st: "fst (MatchString literal_Compile literal_Match ''('' ''TestFoo''
      (after_calls literal_Compile literal_Match [(''Test'', ''TestFoo'')])) =
      \<lparr>matchPat = ''('', matchRe = None\<rparr>"
    by blast
  from inst have nxt: "snd (MatchString literal_Compile literal_Match pat2 str2
      (fst (MatchString literal_Compile literal_Match ''('' ''TestFoo''
        (after_calls literal_Compile literal_Match [(''Test'', ''TestFoo'')])))) =
      (case literal_Compile pat2 of
         Inl e2 \<Rightarrow> Return (False, Some e2)
       | Inr re2 \<Rightarrow> Return (literal_Match re2 str2, None))" for pat2 str2
    by blast
  show ?thesis
    using r st nxt [of "''(''" "''TestFoo''"] nxt [of "''Test''" "''TestFoo''"]
    by (simp add: bad t m prod_eq_iff)
qed

text \<open>
  C6. After a call with \<open>P1\<close> and then a call with a different \<open>P2\<close>, from any state of
  the cache, the slot holds \<open>P2\<close> and what compiling \<open>P2\<close> gave, the second call answers
  from that compilation, and every later call behaves as in a process whose only call so
  far was the one with \<open>P2\<close>.
\<close>

theorem MatchString_single_slot:
  fixes Compile :: "string \<Rightarrow> error + 're"
  assumes "P1 \<noteq> P2"
  shows
    "fst (MatchString Compile Match P2 s2 (fst (MatchString Compile Match P1 s1 c))) =
       compiled_slot Compile P2 \<and>
     snd (MatchString Compile Match P2 s2 (fst (MatchString Compile Match P1 s1 c))) =
       (case Compile P2 of
          Inl e \<Rightarrow> Return (False, Some e)
        | Inr re \<Rightarrow> Return (Match re s2, None)) \<and>
     (\<forall>pat str.
        MatchString Compile Match pat str
          (fst (MatchString Compile Match P2 s2 (fst (MatchString Compile Match P1 s1 c)))) =
        MatchString Compile Match pat str
          (fst (MatchString Compile Match P2 s2 cache_init)))"
proof -
  let ?c1 = "fst (MatchString Compile Match P1 s1 c)"
  have "matchPat ?c1 = P1" by (rule MatchString_matchPat)
  with assms have miss: "matchRe ?c1 = None \<or> matchPat ?c1 \<noteq> P2" by simp
  have fresh: "MatchString Compile Match P2 s2 cache_init =
      (compiled_slot Compile P2,
       case Compile P2 of Inl e \<Rightarrow> Return (False, Some e) | Inr re \<Rightarrow> Return (Match re s2, None))"
    by (rule MatchString_miss) (simp add: cache_init_def)
  show ?thesis
    by (simp add: MatchString_miss [OF miss] fresh)
qed

theorem MatchString_single_slot_witness:
  "''Test'' \<noteq> ''Bench'' \<and>
   MatchString literal_Compile literal_Match ''Bench'' ''TestFoo''
     (fst (MatchString literal_Compile literal_Match ''Test'' ''TestFoo'' cache_init)) =
     (\<lparr>matchPat = ''Bench'', matchRe = Some ''Bench''\<rparr>, Return (False, None))"
proof -
  have ne: "''Test'' \<noteq> ''Bench''" by simp
  have b: "literal_Compile ''Bench'' = Inr ''Bench''"
    by (simp add: literal_Compile_def metachars_def)
  have m: "\<not> literal_Match ''Bench'' ''TestFoo''" by (simp add: literal_Match_def)
  show ?thesis
    using MatchString_single_slot
            [where Compile = literal_Compile and Match = literal_Match and ?s1.0 = "''TestFoo''"
               and ?s2.0 = "''TestFoo''" and c = cache_init, OF ne]
    by (simp add: b m compiled_slot_def prod_eq_iff)
qed

section \<open>Properties of the buffered writer\<close>


lemma streamedD:
  assumes "streamed b store d (b', store')"
  shows "wr b' = wr b" "extra b' = extra b"
    and "\<And>a. a \<noteq> wr b \<Longrightarrow> store' a = store a"
    and "err b \<noteq> None \<Longrightarrow> b' = b \<and> store' = store"
    and "err b' = None \<Longrightarrow> err b = None \<and>
           taken (store' (wr b)) @ buf b' = taken (store (wr b)) @ buf b @ d"
  using assms unfolding streamed_def fst_conv snd_conv by blast+




lemma streamed_same: "streamed b store [] (b, store)"
  by (simp add: streamed_def)

lemma sink_Write_taken:
  "sink_Write io k p = (k', n, e) \<Longrightarrow> taken k' = taken k @ take n p"
  by (auto simp: sink_Write_def split: prod.splits)

lemma bufio_Flush_no_error:
  "bufio_Flush io b store = (b', store', e) \<Longrightarrow> err b' = None \<Longrightarrow>
   buf b' = [] \<and> extra b' = extra b \<and> wr b' = wr b \<and> e = None \<and> err b = None"
  by (auto simp: bufio_Flush_def Let_def split: option.splits prod.splits if_splits)

lemma bufio_Flush_stored: "err b = Some e \<Longrightarrow> bufio_Flush io b store = (b, store, Some e)"
  by (simp add: bufio_Flush_def)

lemma bufio_Flush_empty:
  "err b = None \<Longrightarrow> buf b = [] \<Longrightarrow> bufio_Flush io b store = (b, store, None)"
  by (simp add: bufio_Flush_def)

lemma bufio_Flush_write:
  "err b = None \<Longrightarrow> buf b \<noteq> [] \<Longrightarrow> sink_Write io (store (wr b)) (buf b) = (k', n, e) \<Longrightarrow>
   bufio_Flush io b store =
     (if n < length (buf b) \<and> e = None
      then (b\<lparr>err := Some ErrShortWrite, buf := drop n (buf b)\<rparr>, store(wr b := k'),
            Some ErrShortWrite)
      else case e of
             Some x \<Rightarrow> (b\<lparr>err := Some x, buf := drop n (buf b)\<rparr>, store(wr b := k'), Some x)
           | None \<Rightarrow> (b\<lparr>buf := []\<rparr>, store(wr b := k'), None))"
  by (simp add: bufio_Flush_def)

lemma bufio_Flush_streamed:
  assumes "bufio_Flush io b store = (b', store', e)"
  shows "streamed b store [] (b', store')" and "e = err b'"
proof -
  have "streamed b store [] (b', store') \<and> e = err b'"
  proof (cases "err b")
    case (Some x)
    with assms show ?thesis by (simp add: bufio_Flush_stored streamed_def)
  next
    case None
    show ?thesis
    proof (cases "buf b = []")
      case True
      with None assms show ?thesis by (simp add: bufio_Flush_empty streamed_def)
    next
      case False
      obtain k' n x where sw: "sink_Write io (store (wr b)) (buf b) = (k', n, x)"
        by (cases "sink_Write io (store (wr b)) (buf b)") auto
      note tk = sink_Write_taken [OF sw]
      note fl = bufio_Flush_write [where store = store, OF None False sw]
      show ?thesis
      proof (cases "n < length (buf b) \<and> x = None")
        case True
        with fl assms have "b' = b\<lparr>err := Some ErrShortWrite, buf := drop n (buf b)\<rparr>"
          "store' = store(wr b := k')" "e = Some ErrShortWrite"
          by simp_all
        then show ?thesis using None by (simp add: streamed_def)
      next
        case short: False
        show ?thesis
        proof (cases x)
          case (Some y)
          with fl assms short have "b' = b\<lparr>err := Some y, buf := drop n (buf b)\<rparr>"
            "store' = store(wr b := k')" "e = Some y"
            by simp_all
          then show ?thesis using None by (simp add: streamed_def)
        next
          case nerr: None
          with short have "length (buf b) \<le> n" by simp
          with tk have "taken k' = taken (store (wr b)) @ buf b" by simp
          moreover from fl assms short nerr have "b' = b\<lparr>buf := []\<rparr>"
            "store' = store(wr b := k')" "e = None"
            by simp_all
          ultimately show ?thesis using None by (simp add: streamed_def)
        qed
      qed
    qed
  qed
  then show "streamed b store [] (b', store')" and "e = err b'" by simp_all
qed


lemma bufio_WriteByte_room:
  "err b = None \<Longrightarrow> 1 \<le> Available b \<Longrightarrow>
   bufio_WriteByte io b store c = (b\<lparr>buf := buf b @ [c]\<rparr>, store)"
  by (simp add: bufio_WriteByte_def)



lemma WriteString_loop_exit:
  assumes "\<not> (length s > Available b \<and> err b = None)"
  shows "WriteString_loop io b store s = (b, store, s)"
proof -
  from assms have "(length s > Available b \<and> err b = None) = False" by simp
  then show ?thesis by (subst WriteString_loop.simps) (simp only: if_False)
qed



lemma bufio_WriteString_room:
  "err b = None \<Longrightarrow> length s \<le> Available b \<Longrightarrow>
   bufio_WriteString io b store s = (b\<lparr>buf := buf b @ s\<rparr>, store)"
  by (simp add: bufio_WriteString_def WriteString_loop_exit)




lemma bufio_line_room:
  assumes "err b = None"
    and "length (buf b) + length (op @ '' '' @ name @ ''\<newline>'') \<le> defaultBufSize + extra b"
  shows "bufio_line io b store op name = (b\<lparr>buf := buf b @ op @ '' '' @ name @ ''\<newline>''\<rparr>, store)"
  using assms
  by (simp add: bufio_line_def bufio_WriteString_room bufio_WriteByte_room Available_def)

lemma has_prefix_single: "has_prefix s [ch] = (\<exists>t. s = ch # t)"
  by (cases s) auto

lemma strings_Contains_single: "strings_Contains s [ch] = (ch \<in> set s)"
  by (induction s) (auto simp: has_prefix_single)

lemma add_dropped: "name = [] \<or> CHR ''\<newline>'' \<in> set name \<Longrightarrow> add io op name p = p"
  by (auto simp: add_def strings_Contains_single)

lemma add_absent: "w (log p) = None \<Longrightarrow> add io op name p = p"
  by (simp add: add_def)

lemma add_installed:
  assumes "name \<noteq> []" "CHR ''\<newline>'' \<notin> set name" "installed_writer p = Some b"
  shows "add io op name p =
           set_installed (fst (bufio_line io b (sinks p) op name))
             (p\<lparr>sinks := snd (bufio_line io b (sinks p) op name)\<rparr>)"
proof (cases "w (log p)")
  case None
  with assms show ?thesis by simp
next
  case (Some i)
  show ?thesis
  proof (cases i)
    case (Own b0)
    with Some assms have "b0 = b" by simp
    with Some Own assms show ?thesis
      by (simp add: add_def strings_Contains_single bufio_line_def split: prod.splits)
  next
    case (Given a)
    with Some assms have "writers p a = b" by simp
    with Some Given assms show ?thesis
      by (simp add: add_def strings_Contains_single bufio_line_def split: prod.splits)
  qed
qed






section \<open>Properties of the action logger\<close>

lemma StartTestLog_first_Plain:
  "\<not> set' (log p) \<Longrightarrow>
   StartTestLog io (Plain a) p =
     p\<lparr>log := \<lparr>w = Some (Own \<lparr>err = None, extra = 0, buf = ''# test log\<newline>'', wr = a\<rparr>),
               set' = True\<rparr>,
       SetLogger_calls := Suc (SetLogger_calls p)\<rparr>"
  by (simp add: StartTestLog_def SetLogger_def bufio_WriteString_room Available_def
                defaultBufSize_def)

lemma add_room:
  assumes "name \<noteq> []" "CHR ''\<newline>'' \<notin> set name" "installed_writer p = Some b" "err b = None"
    and "length (buf b) + length (op @ '' '' @ name @ ''\<newline>'') \<le> defaultBufSize + extra b"
  shows "add io op name p = set_installed (b\<lparr>buf := buf b @ op @ '' '' @ name @ ''\<newline>''\<rparr>) p"
  using assms
  by (simp add: add_installed bufio_line_room del: set_installed.simps installed_writer.simps)

lemma StartTestLog_first_Buffered:
  "\<not> set' (log p) \<Longrightarrow>
   StartTestLog io (Buffered a) p =
     p\<lparr>log := \<lparr>w = Some (Given a), set' = True\<rparr>,
       sinks := snd (bufio_WriteString io (writers p a) (sinks p) ''# test log\<newline>''),
       writers := (writers p)
         (a := fst (bufio_WriteString io (writers p a) (sinks p) ''# test log\<newline>'')),
       SetLogger_calls := Suc (SetLogger_calls p)\<rparr>"
  by (simp add: StartTestLog_def SetLogger_def split: prod.splits)

lemma StartTestLog_again:
  "set' (log p) \<Longrightarrow>
   StartTestLog io sink p = p\<lparr>log := \<lparr>w = Some (bufio_NewWriter sink), set' = True\<rparr>\<rparr>"
  by (simp add: StartTestLog_def)

lemma StartTestLog_log:
  "set' (log (StartTestLog io sink p)) \<and> w (log (StartTestLog io sink p)) \<noteq> None \<and>
   SetLogger_calls (StartTestLog io sink p) =
     (if set' (log p) then SetLogger_calls p else Suc (SetLogger_calls p))"
proof (cases "set' (log p)")
  case True
  then show ?thesis by (simp add: StartTestLog_again)
next
  case False
  then show ?thesis
    by (cases sink) (simp_all add: StartTestLog_first_Plain StartTestLog_first_Buffered)
qed

lemma set_installed_frame:
  "set' (log (set_installed b p)) = set' (log p) \<and>
   SetLogger_calls (set_installed b p) = SetLogger_calls p \<and>
   sinks (set_installed b p) = sinks p \<and>
   (w (log (set_installed b p)) = None) = (w (log p) = None)"
  by (auto split: option.splits installed.splits)

lemma add_frame:
  "set' (log (add io op name p)) = set' (log p) \<and>
   SetLogger_calls (add io op name p) = SetLogger_calls p \<and>
   (w (log (add io op name p)) = None) = (w (log p) = None)"
proof (cases "name = [] \<or> CHR ''\<newline>'' \<in> set name")
  case True
  then show ?thesis by (simp add: add_dropped)
next
  case False
  show ?thesis
  proof (cases "installed_writer p")
    case None
    then have "w (log p) = None" by (simp split: option.splits installed.splits)
    then show ?thesis by (simp add: add_absent)
  next
    case (Some b)
    with False show ?thesis
      by (simp add: add_installed set_installed_frame
               del: set_installed.simps installed_writer.simps)
  qed
qed

lemma StopTestLog_absent: "w (log p) = None \<Longrightarrow> StopTestLog io p = (p, Panic)"
  by (simp add: StopTestLog_def)

lemma StopTestLog_installed:
  "installed_writer p = Some b \<Longrightarrow>
   StopTestLog io p =
     ((set_installed (fst (bufio_Flush io b (sinks p)))
         (p\<lparr>sinks := fst (snd (bufio_Flush io b (sinks p)))\<rparr>))
        \<lparr>log := (log p)\<lparr>w := None\<rparr>\<rparr>,
      Return (snd (snd (bufio_Flush io b (sinks p)))))"
  by (auto simp: StopTestLog_def split: prod.splits option.splits installed.splits)

lemma StopTestLog_frame:
  "log (fst (StopTestLog io p)) = (log p)\<lparr>w := None\<rparr> \<and>
   SetLogger_calls (fst (StopTestLog io p)) = SetLogger_calls p"
proof (cases "installed_writer p")
  case None
  then have "w (log p) = None" by (simp split: option.splits installed.splits)
  then show ?thesis by (simp add: StopTestLog_absent)
next
  case (Some b)
  then show ?thesis
    by (auto simp: StopTestLog_installed split: option.splits installed.splits)
qed

lemma StopTestLog_Panic_iff: "(snd (StopTestLog io p) = Panic) = (w (log p) = None)"
proof (cases "installed_writer p")
  case None
  then have "w (log p) = None" by (simp split: option.splits installed.splits)
  then show ?thesis by (simp add: StopTestLog_absent)
next
  case (Some b)
  then have "w (log p) \<noteq> None" by (auto split: option.splits)
  with Some show ?thesis by (simp add: StopTestLog_installed del: installed_writer.simps set_installed.simps)
qed



lemma step_installed_set':
  "w (log p) \<noteq> None \<longrightarrow> set' (log p) \<Longrightarrow>
   w (log (step io p c)) \<noteq> None \<longrightarrow> set' (log (step io p c))"
proof (cases c)
  case (CallStartTestLog sink)
  then show ?thesis using StartTestLog_log [of io sink p] by simp
next
  case CallStopTestLog
  then show ?thesis by (simp add: StopTestLog_frame)
qed (simp_all add: Getenv_def Open_def Stat_def Chdir_def add_frame)



lemma foldl_step_installed_set':
  "w (log p) \<noteq> None \<longrightarrow> set' (log p) \<Longrightarrow>
   w (log (foldl (step io) p calls)) \<noteq> None \<longrightarrow> set' (log (foldl (step io) p calls))"
proof (induction calls arbitrary: p)
  case Nil
  then show ?case by simp
next
  case (Cons c calls)
  from Cons.prems have "w (log (step io p c)) \<noteq> None \<longrightarrow> set' (log (step io p c))"
    by (rule step_installed_set')
  then show ?case using Cons.IH [of "step io p c"] by simp
qed

lemma step_record_absent:
  "w (log p) = None \<Longrightarrow> is_record_call c \<Longrightarrow> step io p c = p"
  by (cases c) (simp_all add: Getenv_def Open_def Stat_def Chdir_def add_absent)

lemma run_record_absent:
  "w (log p) = None \<Longrightarrow> \<forall>c \<in> set calls. is_record_call c \<Longrightarrow> run io p calls = p"
  unfolding run_def by (induction calls) (simp_all add: step_record_absent)

lemma step_keeps_absent:
  "w (log p) = None \<Longrightarrow> \<not> is_start c \<Longrightarrow> w (log (step io p c)) = None"
  by (cases c) (simp_all add: Getenv_def Open_def Stat_def Chdir_def add_absent StopTestLog_frame)

lemma run_keeps_absent:
  "w (log p) = None \<Longrightarrow> \<forall>c \<in> set calls. \<not> is_start c \<Longrightarrow> w (log (run io p calls)) = None"
  unfolding run_def by (induction calls arbitrary: p) (simp_all add: step_keeps_absent)

lemma installed_writer_absent: "(installed_writer p = None) = (w (log p) = None)"
  by (simp split: option.splits installed.splits)

lemma set_installed_log_cleared:
  "(set_installed b q)\<lparr>log := l\<rparr> =
     q\<lparr>log := l, writers := (case w (log q) of Some (Given a) \<Rightarrow> (writers q)(a := b)
                                                | _ \<Rightarrow> writers q)\<rparr>"
  by (simp split: option.splits installed.splits)







text \<open>
  C3. With a writer \<open>b\<close> installed, \<^verbatim>\<open>StopTestLog\<close> flushes \<open>b\<close> and returns the error of the
  flush. A writer with a stored error writes nothing and returns that error; a writer that
  holds nothing writes nothing and returns nil; any other writer hands the bytes it holds
  to its sink in one \<^verbatim>\<open>Write\<close> and returns nil when the sink took every byte without
  error, the sink's error, or \<^verbatim>\<open>io.ErrShortWrite\<close> for a short count with a nil error.
  Whatever the flush returns, the writer slot is nil afterwards, the flag and the
  registration are as before, and no writer of the caller changes except the flushed one;
  record calls then change nothing, and a \<^verbatim>\<open>StartTestLog\<close> installs a writer again.
\<close>

theorem StopTestLog_flushes_and_clears:
  fixes io :: "'s io_methods"
  assumes inst: "installed_writer p = Some b"
  defines "r \<equiv> sink_Write io (sinks p (wr b)) (buf b)"
  defines "q \<equiv> fst (StopTestLog io p)"
  shows
    "(\<forall>x. err b = Some x \<longrightarrow>
        StopTestLog io p = (p\<lparr>log := (log p)\<lparr>w := None\<rparr>\<rparr>, Return (Some x))) \<and>
     (err b = None \<and> buf b = [] \<longrightarrow>
        StopTestLog io p = (p\<lparr>log := (log p)\<lparr>w := None\<rparr>\<rparr>, Return None)) \<and>
     (err b = None \<and> buf b \<noteq> [] \<longrightarrow>
        sinks q = (sinks p)(wr b := fst r) \<and>
        taken (sinks q (wr b)) = taken (sinks p (wr b)) @ take (fst (snd r)) (buf b) \<and>
        snd (StopTestLog io p) =
          Return (if fst (snd r) < length (buf b) \<and> snd (snd r) = None then Some ErrShortWrite
                  else snd (snd r)) \<and>
        (snd (snd r) = None \<and> length (buf b) \<le> fst (snd r) \<longrightarrow>
           snd (StopTestLog io p) = Return None \<and>
           taken (sinks q (wr b)) = taken (sinks p (wr b)) @ buf b)) \<and>
     log q = (log p)\<lparr>w := None\<rparr> \<and>
     SetLogger_calls q = SetLogger_calls p \<and>
     (\<forall>a. w (log p) \<noteq> Some (Given a) \<longrightarrow> writers q a = writers p a) \<and>
     (\<forall>a. w (log p) = Some (Given a) \<longrightarrow>
        writers q a = fst (bufio_Flush io b (sinks p)) \<and>
        (snd (StopTestLog io p) = Return None \<longrightarrow> writers q a = b\<lparr>buf := []\<rparr>)) \<and>
     (\<forall>calls. (\<forall>c \<in> set calls. is_record_call c) \<longrightarrow> run io q calls = q) \<and>
     (\<forall>sink. w (log (StartTestLog io sink q)) \<noteq> None)"
proof -
  obtain b' store' e where fl: "bufio_Flush io b (sinks p) = (b', store', e)"
    by (cases "bufio_Flush io b (sinks p)") auto
  have stop: "StopTestLog io p =
      ((set_installed b' (p\<lparr>sinks := store'\<rparr>))\<lparr>log := (log p)\<lparr>w := None\<rparr>\<rparr>, Return e)"
    using StopTestLog_installed [OF inst, of io] by (simp add: fl)
  have q: "q = (set_installed b' (p\<lparr>sinks := store'\<rparr>))\<lparr>log := (log p)\<lparr>w := None\<rparr>\<rparr>"
    by (simp add: q_def stop)
  have qsinks: "sinks q = store'" and qlog: "log q = (log p)\<lparr>w := None\<rparr>"
    and qcalls: "SetLogger_calls q = SetLogger_calls p"
    unfolding q by (simp_all split: option.splits installed.splits)
  have same: "(set_installed b (p\<lparr>sinks := sinks p\<rparr>))\<lparr>log := (log p)\<lparr>w := None\<rparr>\<rparr> =
              p\<lparr>log := (log p)\<lparr>w := None\<rparr>\<rparr>"
    using inst by (auto split: option.splits installed.splits)
  have stored: "StopTestLog io p = (p\<lparr>log := (log p)\<lparr>w := None\<rparr>\<rparr>, Return (Some x))"
    if "err b = Some x" for x
    using stop fl same bufio_Flush_stored [OF that, of io "sinks p"] by simp
  have empty: "StopTestLog io p = (p\<lparr>log := (log p)\<lparr>w := None\<rparr>\<rparr>, Return None)"
    if "err b = None \<and> buf b = []"
    using stop fl same that bufio_Flush_empty [of b io "sinks p"] by simp
  have written:
    "sinks q = (sinks p)(wr b := fst r) \<and>
     taken (sinks q (wr b)) = taken (sinks p (wr b)) @ take (fst (snd r)) (buf b) \<and>
     snd (StopTestLog io p) =
       Return (if fst (snd r) < length (buf b) \<and> snd (snd r) = None then Some ErrShortWrite
               else snd (snd r)) \<and>
     (snd (snd r) = None \<and> length (buf b) \<le> fst (snd r) \<longrightarrow>
        snd (StopTestLog io p) = Return None \<and>
        taken (sinks q (wr b)) = taken (sinks p (wr b)) @ buf b)"
    if ne: "err b = None \<and> buf b \<noteq> []"
  proof -
    obtain k' n x where sw: "sink_Write io (sinks p (wr b)) (buf b) = (k', n, x)"
      by (cases "sink_Write io (sinks p (wr b)) (buf b)") auto
    note tk = sink_Write_taken [OF sw]
    from ne have "err b = None" "buf b \<noteq> []" by simp_all
    note fw = bufio_Flush_write [where store = "sinks p", OF this sw]
    from fw fl have s': "store' = (sinks p)(wr b := k')"
      and e: "e = (if n < length (buf b) \<and> x = None then Some ErrShortWrite else x)"
      by (auto split: if_splits option.splits)
    show ?thesis
      using s' e tk by (simp add: qsinks stop r_def sw)
  qed
  have frame: "writers q a = writers p a" if "w (log p) \<noteq> Some (Given a)" for a
    using that unfolding q by (auto split: option.splits installed.splits)
  have given: "writers q a = fst (bufio_Flush io b (sinks p)) \<and>
        (snd (StopTestLog io p) = Return None \<longrightarrow> writers q a = b\<lparr>buf := []\<rparr>)"
    if g: "w (log p) = Some (Given a)" for a
  proof -
    from g have wa: "writers q a = b'" unfolding q by simp
    have "b' = b\<lparr>buf := []\<rparr>" if "e = None"
    proof -
      from bufio_Flush_streamed(2) [OF fl] that have e': "err b' = None" by simp
      from bufio_Flush_no_error [OF fl e'] have "buf b' = []" "err b = None" by simp_all
      moreover from streamedD(1,2) [OF bufio_Flush_streamed(1) [OF fl]]
      have "wr b' = wr b" "extra b' = extra b" by simp_all
      ultimately show ?thesis using e' by simp
    qed
    with wa show ?thesis by (simp add: fl stop)
  qed
  have absent: "w (log q) = None" by (simp add: qlog)
  have dropped: "run io q calls = q" if "\<forall>c \<in> set calls. is_record_call c" for calls
    using absent that by (rule run_record_absent)
  have restart: "w (log (StartTestLog io sink q)) \<noteq> None" for sink
    using StartTestLog_log [of io sink q] by simp
  from stored empty written qlog qcalls frame given dropped restart show ?thesis
    by blast
qed

theorem StopTestLog_flushes_and_clears_witness:
  "StopTestLog file_io
     \<lparr>log = \<lparr>w = Some (Own \<lparr>err = None, extra = 0, buf = ''# test log\<newline>'', wr = 0\<rparr>),
             set' = True\<rparr>,
      sinks = empty_files 100, writers = empty_writers, SetLogger_calls = 1\<rparr> =
     (\<lparr>log = \<lparr>w = None, set' = True\<rparr>,
       sinks = (empty_files 100)(0 := \<lparr>taken = ''# test log\<newline>'', state = 89\<rparr>),
       writers = empty_writers, SetLogger_calls = 1\<rparr>, Return None) \<and>
   StopTestLog file_io
     \<lparr>log = \<lparr>w = Some (Own \<lparr>err = None, extra = 0, buf = ''# test log\<newline>'', wr = 0\<rparr>),
             set' = True\<rparr>,
      sinks = empty_files 5, writers = empty_writers, SetLogger_calls = 1\<rparr> =
     (\<lparr>log = \<lparr>w = None, set' = True\<rparr>,
       sinks = (empty_files 5)(0 := \<lparr>taken = ''# tes'', state = 0\<rparr>),
       writers = empty_writers, SetLogger_calls = 1\<rparr>,
      Return (Some (Err ''no space left on device''))) \<and>
   StopTestLog file_io
     \<lparr>log = \<lparr>w = Some (Own \<lparr>err = Some ErrShortWrite, extra = 0, buf = ''stat a'', wr = 0\<rparr>),
             set' = True\<rparr>,
      sinks = empty_files 100, writers = empty_writers, SetLogger_calls = 1\<rparr> =
     (\<lparr>log = \<lparr>w = None, set' = True\<rparr>,
       sinks = empty_files 100, writers = empty_writers, SetLogger_calls = 1\<rparr>,
      Return (Some ErrShortWrite)) \<and>
   StopTestLog file_io
     \<lparr>log = \<lparr>w = Some (Given 1), set' = True\<rparr>,
      sinks = empty_files 100, writers = empty_writers, SetLogger_calls = 1\<rparr> =
     (\<lparr>log = \<lparr>w = None, set' = True\<rparr>,
       sinks = empty_files 100, writers = empty_writers, SetLogger_calls = 1\<rparr>,
      Return None) \<and>
   run file_io
     (fst (StopTestLog file_io
        \<lparr>log = \<lparr>w = Some (Own \<lparr>err = None, extra = 0, buf = ''# test log\<newline>'', wr = 0\<rparr>),
                set' = True\<rparr>,
         sinks = empty_files 5, writers = empty_writers, SetLogger_calls = 1\<rparr>))
     [CallOpen ''/tmp/x'', CallGetenv ''HOME''] =
   fst (StopTestLog file_io
        \<lparr>log = \<lparr>w = Some (Own \<lparr>err = None, extra = 0, buf = ''# test log\<newline>'', wr = 0\<rparr>),
                set' = True\<rparr>,
         sinks = empty_files 5, writers = empty_writers, SetLogger_calls = 1\<rparr>)"
proof -
  define hw where "hw = \<lparr>err = None, extra = 0, buf = ''# test log\<newline>'', wr = 0\<rparr>"
  define fw where "fw = \<lparr>err = Some ErrShortWrite, extra = 0, buf = ''stat a'', wr = 0\<rparr>"
  define P :: "nat \<Rightarrow> nat process" where
    "P = (\<lambda>n. \<lparr>log = \<lparr>w = Some (Own hw), set' = True\<rparr>,
                sinks = empty_files n, writers = empty_writers, SetLogger_calls = 1\<rparr>)"
  define F :: "nat process" where
    "F = \<lparr>log = \<lparr>w = Some (Own fw), set' = True\<rparr>,
          sinks = empty_files 100, writers = empty_writers, SetLogger_calls = 1\<rparr>"
  define G :: "nat process" where
    "G = \<lparr>log = \<lparr>w = Some (Given 1), set' = True\<rparr>,
          sinks = empty_files 100, writers = empty_writers, SetLogger_calls = 1\<rparr>"
  have hw: "err hw = None" "buf hw \<noteq> []" "buf hw = ''# test log\<newline>''" "wr hw = 0"
    by (simp_all add: hw_def)
  have iP: "installed_writer (P n) = Some hw" for n by (simp add: P_def)
  have iF: "installed_writer F = Some fw" by (simp add: F_def)
  have iG: "installed_writer G = Some (empty_writers 1)" by (simp add: G_def)
  have sw: "sink_Write file_io (sinks (P 100) (wr hw)) (buf hw) =
              (\<lparr>taken = ''# test log\<newline>'', state = 89\<rparr>, 11, None)"
    by (simp add: sink_Write_def file_io_def empty_files_def P_def hw)
  have sw5: "sink_Write file_io (sinks (P 5) (wr hw)) (buf hw) =
              (\<lparr>taken = ''# tes'', state = 0\<rparr>, 5, Some (Err ''no space left on device''))"
    by (simp add: sink_Write_def file_io_def empty_files_def P_def hw)
  have rc: "\<forall>c \<in> set [CallOpen ''/tmp/x'', CallGetenv ''HOME'']. is_record_call c"
    by simp
  note ok = StopTestLog_flushes_and_clears [where io = file_io, OF iP [of 100]]
  note bad = StopTestLog_flushes_and_clears [where io = file_io, OF iP [of 5]]
  note failed = StopTestLog_flushes_and_clears [where io = file_io, OF iF]
  note given = StopTestLog_flushes_and_clears [where io = file_io, OF iG]
  have A: "StopTestLog file_io (P 100) =
     ((P 100)\<lparr>log := \<lparr>w = None, set' = True\<rparr>,
        sinks := (empty_files 100)(0 := \<lparr>taken = ''# test log\<newline>'', state = 89\<rparr>)\<rparr>,
      Return None)"
  proof (rule prod_eqI)
    from ok hw sw have s: "sinks (fst (StopTestLog file_io (P 100))) =
        (empty_files 100)(0 := \<lparr>taken = ''# test log\<newline>'', state = 89\<rparr>)"
      and l: "log (fst (StopTestLog file_io (P 100))) = (log (P 100))\<lparr>w := None\<rparr>"
      and c: "SetLogger_calls (fst (StopTestLog file_io (P 100))) = SetLogger_calls (P 100)"
      and h: "\<forall>a. w (log (P 100)) \<noteq> Some (Given a) \<longrightarrow>
                 writers (fst (StopTestLog file_io (P 100))) a = writers (P 100) a"
      and r: "snd (StopTestLog file_io (P 100)) = Return None"
      by (simp_all add: P_def)
    from h have "writers (fst (StopTestLog file_io (P 100))) = writers (P 100)"
      by (simp add: P_def fun_eq_iff)
    with s l c show "fst (StopTestLog file_io (P 100)) =
        fst ((P 100)\<lparr>log := \<lparr>w = None, set' = True\<rparr>,
               sinks := (empty_files 100)(0 := \<lparr>taken = ''# test log\<newline>'', state = 89\<rparr>)\<rparr>,
             Return None :: error option outcome)"
      by (simp add: P_def process.equality)
    from r show "snd (StopTestLog file_io (P 100)) =
        snd ((P 100)\<lparr>log := \<lparr>w = None, set' = True\<rparr>,
               sinks := (empty_files 100)(0 := \<lparr>taken = ''# test log\<newline>'', state = 89\<rparr>)\<rparr>,
             Return None :: error option outcome)"
      by simp
  qed
  have B: "StopTestLog file_io (P 5) =
     ((P 5)\<lparr>log := \<lparr>w = None, set' = True\<rparr>,
        sinks := (empty_files 5)(0 := \<lparr>taken = ''# tes'', state = 0\<rparr>)\<rparr>,
      Return (Some (Err ''no space left on device'')))"
  proof (rule prod_eqI)
    from bad hw sw5 have s: "sinks (fst (StopTestLog file_io (P 5))) =
        (empty_files 5)(0 := \<lparr>taken = ''# tes'', state = 0\<rparr>)"
      and l: "log (fst (StopTestLog file_io (P 5))) = (log (P 5))\<lparr>w := None\<rparr>"
      and c: "SetLogger_calls (fst (StopTestLog file_io (P 5))) = SetLogger_calls (P 5)"
      and h: "\<forall>a. w (log (P 5)) \<noteq> Some (Given a) \<longrightarrow>
                 writers (fst (StopTestLog file_io (P 5))) a = writers (P 5) a"
      and r: "snd (StopTestLog file_io (P 5)) = Return (Some (Err ''no space left on device''))"
      by (simp_all add: P_def)
    from h have "writers (fst (StopTestLog file_io (P 5))) = writers (P 5)"
      by (simp add: P_def fun_eq_iff)
    with s l c show "fst (StopTestLog file_io (P 5)) =
        fst ((P 5)\<lparr>log := \<lparr>w = None, set' = True\<rparr>,
               sinks := (empty_files 5)(0 := \<lparr>taken = ''# tes'', state = 0\<rparr>)\<rparr>,
             Return (Some (Err ''no space left on device'')))"
      by (simp add: P_def process.equality)
    from r show "snd (StopTestLog file_io (P 5)) =
        snd ((P 5)\<lparr>log := \<lparr>w = None, set' = True\<rparr>,
               sinks := (empty_files 5)(0 := \<lparr>taken = ''# tes'', state = 0\<rparr>)\<rparr>,
             Return (Some (Err ''no space left on device'')))"
      by simp
  qed
  from failed have C: "StopTestLog file_io F =
      (F\<lparr>log := \<lparr>w = None, set' = True\<rparr>\<rparr>, Return (Some ErrShortWrite))"
    by (simp add: fw_def F_def)
  from given have D: "StopTestLog file_io G = (G\<lparr>log := \<lparr>w = None, set' = True\<rparr>\<rparr>, Return None)"
    by (simp add: G_def empty_writers_def)
  from bad rc have E: "run file_io (fst (StopTestLog file_io (P 5)))
      [CallOpen ''/tmp/x'', CallGetenv ''HOME''] = fst (StopTestLog file_io (P 5))"
    by blast
  show ?thesis
    using A B C D E by (simp add: P_def F_def G_def hw_def fw_def)
qed

text \<open>
  C9. \<^verbatim>\<open>StopTestLog\<close> panics exactly when the writer slot is nil, and then changes
  nothing. The slot is nil, so the call panics, after any calls from process start that
  include no \<^verbatim>\<open>StartTestLog\<close>, and after a \<^verbatim>\<open>StopTestLog\<close> followed by any calls that include
  no \<^verbatim>\<open>StartTestLog\<close>.
\<close>

theorem StopTestLog_without_writer_panics:
  fixes io :: "'s io_methods"
  shows
    "(w (log p) = None \<longrightarrow> StopTestLog io p = (p, Panic)) \<and>
     (snd (StopTestLog io p) = Panic) = (w (log p) = None) \<and>
     (\<forall>calls. (\<forall>c \<in> set calls. \<not> is_start c) \<longrightarrow>
        snd (StopTestLog io (run io (process_init store heap) calls)) = Panic) \<and>
     (\<forall>calls. (\<forall>c \<in> set calls. \<not> is_start c) \<longrightarrow>
        snd (StopTestLog io (run io (fst (StopTestLog io p)) calls)) = Panic)"
proof (intro conjI allI impI)
  assume "w (log p) = None"
  then show "StopTestLog io p = (p, Panic)" by (rule StopTestLog_absent)
next
  show "(snd (StopTestLog io p) = Panic) = (w (log p) = None)"
    by (rule StopTestLog_Panic_iff)
next
  fix calls :: "log_call list"
  assume ns: "\<forall>c \<in> set calls. \<not> is_start c"
  have "w (log (process_init store heap)) = None" by (simp add: process_init_def)
  then have "w (log (run io (process_init store heap) calls)) = None"
    using ns by (rule run_keeps_absent)
  then show "snd (StopTestLog io (run io (process_init store heap) calls)) = Panic"
    by (simp add: StopTestLog_Panic_iff)
next
  fix calls :: "log_call list"
  assume ns: "\<forall>c \<in> set calls. \<not> is_start c"
  have "w (log (fst (StopTestLog io p))) = None" by (simp add: StopTestLog_frame)
  then have "w (log (run io (fst (StopTestLog io p)) calls)) = None"
    using ns by (rule run_keeps_absent)
  then show "snd (StopTestLog io (run io (fst (StopTestLog io p)) calls)) = Panic"
    by (simp add: StopTestLog_Panic_iff)
qed

theorem StopTestLog_without_writer_panics_witness:
  "w (log (process_init (empty_files 100) empty_writers)) = None \<and>
   StopTestLog file_io (process_init (empty_files 100) empty_writers) =
     (process_init (empty_files 100) empty_writers, Panic) \<and>
   \<not> is_start (CallOpen ''/tmp/x'') \<and>
   snd (StopTestLog file_io
          (run file_io
             (fst (StopTestLog file_io
                (StartTestLog file_io (Plain 0) (process_init (empty_files 100) empty_writers))))
             [CallOpen ''/tmp/x''])) = Panic \<and>
   snd (StopTestLog file_io
          (StartTestLog file_io (Plain 0) (process_init (empty_files 100) empty_writers))) \<noteq> Panic"
proof -
  define P0 :: "nat process" where "P0 = process_init (empty_files 100) empty_writers"
  define P1 where "P1 = StartTestLog file_io (Plain 0) P0"
  have a: "w (log P0) = None"
    by (simp add: process_init_def P0_def)
  have ns: "\<forall>c \<in> set [CallOpen ''/tmp/x'']. \<not> is_start c" by simp
  have i: "w (log P1) \<noteq> None"
    unfolding P1_def using StartTestLog_log [of file_io "Plain 0" P0] by simp
  note init = StopTestLog_without_writer_panics
                [where io = file_io and p = P0 and store = "empty_files 100"
                   and heap = empty_writers]
  note started = StopTestLog_without_writer_panics
                [where io = file_io and p = P1 and store = "empty_files 100"
                   and heap = empty_writers]
  note b = init [THEN conjunct1, THEN mp, OF a]
  note c = started [THEN conjunct2, THEN conjunct2, THEN conjunct2, THEN spec, THEN mp, OF ns]
  from started [THEN conjunct2, THEN conjunct1] i
  have d: "snd (StopTestLog file_io P1) \<noteq> Panic" by simp
  show ?thesis
    using a b c d unfolding P0_def P1_def by simp
qed

text \<open>
  C10. After any list of calls from process start, a \<^verbatim>\<open>StartTestLog\<close> that finds a writer
  installed puts \<^verbatim>\<open>bufio.NewWriter\<close> of the given writer in its place and does nothing
  else: it flushes nothing, so no sink and no writer of the caller changes. When the
  replaced writer is one that an earlier \<^verbatim>\<open>StartTestLog\<close> made, the bytes it held are
  gone: the state after the call, and every state that later calls lead to, the contents of
  every sink included, are the same whatever it held. A buffered writer of the caller is
  not emptied by being replaced, and given again it is installed again with what it holds.
\<close>

theorem StartTestLog_replaces_unflushed:
  fixes io :: "'s io_methods" and store heap calls
  defines "p \<equiv> run io (process_init store heap) calls"
  shows
    "(w (log p) \<noteq> None \<longrightarrow>
        StartTestLog io sink p = p\<lparr>log := (log p)\<lparr>w := Some (bufio_NewWriter sink)\<rparr>\<rparr>) \<and>
     (\<forall>old later.
        StartTestLog io sink (p\<lparr>log := (log p)\<lparr>w := Some (Own old)\<rparr>\<rparr>) =
        StartTestLog io sink (p\<lparr>log := (log p)\<lparr>w := None\<rparr>\<rparr>) \<and>
        run io (StartTestLog io sink (p\<lparr>log := (log p)\<lparr>w := Some (Own old)\<rparr>\<rparr>)) later =
        run io (StartTestLog io sink (p\<lparr>log := (log p)\<lparr>w := None\<rparr>\<rparr>)) later)"
proof -
  have inv: "w (log p) \<noteq> None \<longrightarrow> set' (log p)"
    unfolding p_def run_def
    by (rule foldl_step_installed_set') (simp add: process_init_def)
  have replace: "StartTestLog io sink p = p\<lparr>log := (log p)\<lparr>w := Some (bufio_NewWriter sink)\<rparr>\<rparr>"
    if "w (log p) \<noteq> None"
  proof -
    from that inv have "set' (log p)" by simp
    then show ?thesis by (simp add: StartTestLog_def)
  qed
  have same: "StartTestLog io sink (p\<lparr>log := (log p)\<lparr>w := Some (Own old)\<rparr>\<rparr>) =
              StartTestLog io sink (p\<lparr>log := (log p)\<lparr>w := None\<rparr>\<rparr>)" for old
    by (cases sink) (simp_all add: StartTestLog_def SetLogger_def split: prod.splits)
  from replace same show ?thesis by simp
qed

theorem StartTestLog_replaces_unflushed_witness:
  "w (log (run file_io (process_init (empty_files 100) empty_writers)
             [CallStartTestLog (Plain 0), CallOpen ''/tmp/x''])) =
     Some (Own \<lparr>err = None, extra = 0, buf = ''# test log\<newline>open /tmp/x\<newline>'', wr = 0\<rparr>) \<and>
   StartTestLog file_io (Plain 1)
     (run file_io (process_init (empty_files 100) empty_writers)
        [CallStartTestLog (Plain 0), CallOpen ''/tmp/x'']) =
     \<lparr>log = \<lparr>w = Some (Own \<lparr>err = None, extra = 0, buf = [], wr = 1\<rparr>), set' = True\<rparr>,
      sinks = empty_files 100, writers = empty_writers, SetLogger_calls = 1\<rparr> \<and>
   sinks (run file_io
            (StartTestLog file_io (Plain 1)
               (run file_io (process_init (empty_files 100) empty_writers)
                  [CallStartTestLog (Plain 0), CallOpen ''/tmp/x'']))
            [CallStat ''y'', CallStopTestLog]) =
     (empty_files 100)(1 := \<lparr>taken = ''stat y\<newline>'', state = 93\<rparr>)"
proof -
  define old where
    "old = \<lparr>err = None, extra = 0, buf = ''# test log\<newline>open /tmp/x\<newline>'', wr = 0\<rparr>"
  define P :: "nat process" where
    "P = run file_io (process_init (empty_files 100) empty_writers)
           [CallStartTestLog (Plain 0), CallOpen ''/tmp/x'']"
  define N :: "nat process" where
    "N = \<lparr>log = \<lparr>w = Some (Own \<lparr>err = None, extra = 0, buf = [], wr = 1\<rparr>), set' = True\<rparr>,
           sinks = empty_files 100, writers = empty_writers, SetLogger_calls = 1\<rparr>"
  have 1: "StartTestLog file_io (Plain 0) (process_init (empty_files 100) empty_writers) =
           \<lparr>log = \<lparr>w = Some (Own \<lparr>err = None, extra = 0, buf = ''# test log\<newline>'', wr = 0\<rparr>),
                   set' = True\<rparr>,
            sinks = empty_files 100, writers = empty_writers, SetLogger_calls = 1\<rparr>"
    by (simp add: StartTestLog_first_Plain process_init_def)
  have P: "P = \<lparr>log = \<lparr>w = Some (Own old), set' = True\<rparr>,
                 sinks = empty_files 100, writers = empty_writers, SetLogger_calls = 1\<rparr>"
    unfolding P_def run_def
    apply (simp add: 1 Open_def)
    apply (subst add_room [where b = "\<lparr>err = None, extra = 0, buf = ''# test log\<newline>'', wr = 0\<rparr>"])
    apply (simp_all add: defaultBufSize_def old_def)
    done
  note inst = StartTestLog_replaces_unflushed
                [where io = file_io and store = "empty_files 100" and heap = empty_writers
                   and calls = "[CallStartTestLog (Plain 0), CallOpen ''/tmp/x'']"
                   and sink = "Plain 1", folded P_def]
  have wP: "w (log P) \<noteq> None" by (simp add: P)
  from inst [THEN conjunct1, THEN mp, OF wP]
  have A: "StartTestLog file_io (Plain 1) P = N" by (simp add: P N_def)
  have self: "P\<lparr>log := (log P)\<lparr>w := Some (Own old)\<rparr>\<rparr> = P" by (simp add: P)
  from inst [THEN conjunct2, THEN spec, THEN spec, THEN conjunct2,
             of old "[CallStat ''y'', CallStopTestLog]"]
  have B: "run file_io (StartTestLog file_io (Plain 1) P) [CallStat ''y'', CallStopTestLog] =
           run file_io (StartTestLog file_io (Plain 1) (P\<lparr>log := (log P)\<lparr>w := None\<rparr>\<rparr>))
             [CallStat ''y'', CallStopTestLog]"
    by (simp only: self)
  have N': "StartTestLog file_io (Plain 1) (P\<lparr>log := (log P)\<lparr>w := None\<rparr>\<rparr>) = N"
    by (simp add: StartTestLog_again P N_def)
  have st: "Stat file_io ''y'' N =
            N\<lparr>log := \<lparr>w = Some (Own \<lparr>err = None, extra = 0, buf = ''stat y\<newline>'', wr = 1\<rparr>),
                       set' = True\<rparr>\<rparr>"
    unfolding Stat_def
    by (subst add_room [where b = "\<lparr>err = None, extra = 0, buf = [], wr = 1\<rparr>"])
       (simp_all add: N_def defaultBufSize_def)
  have sw: "sink_Write file_io (empty_files 100 a) ''stat y\<newline>'' =
              (\<lparr>taken = ''stat y\<newline>'', state = 93\<rparr>, 7, None)" for a
    by (simp add: sink_Write_def file_io_def empty_files_def)
  have fl: "bufio_Flush file_io \<lparr>err = None, extra = 0, buf = ''stat y\<newline>'', wr = a\<rparr>
              (empty_files 100) =
            (\<lparr>err = None, extra = 0, buf = [], wr = a\<rparr>,
             (empty_files 100)(a := \<lparr>taken = ''stat y\<newline>'', state = 93\<rparr>), None)" for a
    by (subst bufio_Flush_write [where k' = "\<lparr>taken = ''stat y\<newline>'', state = 93\<rparr>"
                                    and n = 7 and e = None])
       (simp_all add: sw)
  have C: "sinks (run file_io N [CallStat ''y'', CallStopTestLog]) =
           (empty_files 100)(1 := \<lparr>taken = ''stat y\<newline>'', state = 93\<rparr>)"
    unfolding run_def
    apply (simp add: st)
    apply (subst StopTestLog_installed
             [where b = "\<lparr>err = None, extra = 0, buf = ''stat y\<newline>'', wr = 1\<rparr>"])
    apply (simp_all add: N_def fl [of "Suc 0"])
    done
  have G1: "w (log P) =
     Some (Own \<lparr>err = None, extra = 0, buf = ''# test log\<newline>open /tmp/x\<newline>'', wr = 0\<rparr>)"
    by (simp add: P old_def)
  have G2: "StartTestLog file_io (Plain 1) P =
     \<lparr>log = \<lparr>w = Some (Own \<lparr>err = None, extra = 0, buf = [], wr = 1\<rparr>), set' = True\<rparr>,
      sinks = empty_files 100, writers = empty_writers, SetLogger_calls = 1\<rparr>"
    using A by (simp only: N_def)
  have G3: "sinks (run file_io (StartTestLog file_io (Plain 1) P)
                     [CallStat ''y'', CallStopTestLog]) =
     (empty_files 100)(1 := \<lparr>taken = ''stat y\<newline>'', state = 93\<rparr>)"
    by (simp only: B N' C)
  show ?thesis
    unfolding P_def [symmetric] by (intro conjI G1 G2 G3)
qed

theorem StartTestLog_same_writer_counterexample:
  "taken (sinks (run file_io (process_init (empty_files 100) empty_writers)
                   [CallStartTestLog (Buffered 0), CallOpen ''/tmp/x'']) 0) = [] \<and>
   installed_writer (run file_io (process_init (empty_files 100) empty_writers)
                   [CallStartTestLog (Buffered 0), CallOpen ''/tmp/x'']) =
     Some \<lparr>err = None, extra = 0, buf = ''# test log\<newline>open /tmp/x\<newline>'', wr = 0\<rparr> \<and>
   taken (sinks (run file_io (process_init (empty_files 100) empty_writers)
                   [CallStartTestLog (Buffered 0), CallOpen ''/tmp/x'',
                    CallStartTestLog (Buffered 0), CallStopTestLog]) 0) =
     ''# test log\<newline>open /tmp/x\<newline>''"
proof -
  define Q1 :: "nat process" where
    "Q1 = \<lparr>log = \<lparr>w = Some (Given 0), set' = True\<rparr>, sinks = empty_files 100,
            writers = empty_writers
              (0 := \<lparr>err = None, extra = 0, buf = ''# test log\<newline>'', wr = 0\<rparr>),
            SetLogger_calls = 1\<rparr>"
  define Q2 :: "nat process" where
    "Q2 = \<lparr>log = \<lparr>w = Some (Given 0), set' = True\<rparr>, sinks = empty_files 100,
            writers = empty_writers
              (0 := \<lparr>err = None, extra = 0, buf = ''# test log\<newline>open /tmp/x\<newline>'',
                      wr = 0\<rparr>),
            SetLogger_calls = 1\<rparr>"
  have hdr: "bufio_WriteString file_io \<lparr>err = None, extra = 0, buf = [], wr = 0\<rparr>
               (empty_files 100) ''# test log\<newline>'' =
             (\<lparr>err = None, extra = 0, buf = ''# test log\<newline>'', wr = 0\<rparr>, empty_files 100)"
    by (subst bufio_WriteString_room) (simp_all add: Available_def defaultBufSize_def)
  have 1: "StartTestLog file_io (Buffered 0) (process_init (empty_files 100) empty_writers) = Q1"
    by (simp add: StartTestLog_first_Buffered process_init_def empty_writers_def hdr Q1_def)
  have 2: "Open file_io ''/tmp/x'' Q1 = Q2"
    unfolding Open_def
    by (subst add_room [where b = "\<lparr>err = None, extra = 0, buf = ''# test log\<newline>'', wr = 0\<rparr>"])
       (simp_all add: Q1_def Q2_def defaultBufSize_def)
  have 3: "StartTestLog file_io (Buffered 0) Q2 = Q2"
    by (simp add: StartTestLog_again Q2_def)
  have sw: "sink_Write file_io (empty_files 100 a) ''# test log\<newline>open /tmp/x\<newline>'' =
              (\<lparr>taken = ''# test log\<newline>open /tmp/x\<newline>'', state = 77\<rparr>, 23, None)" for a
    by (simp add: sink_Write_def file_io_def empty_files_def)
  have fl: "bufio_Flush file_io
              \<lparr>err = None, extra = 0, buf = ''# test log\<newline>open /tmp/x\<newline>'', wr = 0\<rparr>
              (empty_files 100) =
            (\<lparr>err = None, extra = 0, buf = [], wr = 0\<rparr>,
             (empty_files 100)(0 := \<lparr>taken = ''# test log\<newline>open /tmp/x\<newline>'', state = 77\<rparr>),
             None)"
    by (subst bufio_Flush_write [where k' = "\<lparr>taken = ''# test log\<newline>open /tmp/x\<newline>'',
                                                 state = 77\<rparr>" and n = 23 and e = None])
       (simp_all add: sw)
  have 4: "sinks (fst (StopTestLog file_io Q2)) =
             (empty_files 100)(0 := \<lparr>taken = ''# test log\<newline>open /tmp/x\<newline>'', state = 77\<rparr>)"
    by (subst StopTestLog_installed
          [where b = "\<lparr>err = None, extra = 0, buf = ''# test log\<newline>open /tmp/x\<newline>'',
                       wr = 0\<rparr>"])
       (simp_all add: Q2_def fl)
  have A: "run file_io (process_init (empty_files 100) empty_writers)
             [CallStartTestLog (Buffered 0), CallOpen ''/tmp/x''] = Q2"
    by (simp add: run_def 1 2)
  have B: "run file_io (process_init (empty_files 100) empty_writers)
             [CallStartTestLog (Buffered 0), CallOpen ''/tmp/x'',
              CallStartTestLog (Buffered 0), CallStopTestLog] = fst (StopTestLog file_io Q2)"
    by (simp add: run_def 1 2 3)
  show ?thesis
    unfolding A B 4 by (simp add: Q2_def empty_files_def)
qed

section \<open>Properties of corpus validation\<close>

lemma fill_valsT_result:
  "valsI + length vs \<le> length valsT \<Longrightarrow>
   fill_valsT TypeOf vs valsI valsT =
     Return (take valsI valsT @ map TypeOf vs @ drop (valsI + length vs) valsT)"
proof (induction vs arbitrary: valsI valsT)
  case Nil
  then show ?case by simp
next
  case (Cons v vs)
  from Cons.prems have lt: "valsI < length valsT" by simp
  have step: "take (Suc valsI) (valsT[valsI := TypeOf v]) = take valsI valsT @ [TypeOf v]"
    using lt by (simp add: take_Suc_conv_app_nth)
  have "fill_valsT TypeOf (v # vs) valsI valsT =
        fill_valsT TypeOf vs (Suc valsI) (valsT[valsI := TypeOf v])"
    using lt by simp
  also have "\<dots> = Return (take (Suc valsI) (valsT[valsI := TypeOf v]) @ map TypeOf vs @
                          drop (Suc valsI + length vs) (valsT[valsI := TypeOf v]))"
    using Cons.prems by (intro Cons.IH) simp
  also have "\<dots> = Return (take valsI valsT @ map TypeOf (v # vs) @
                          drop (valsI + length (v # vs)) valsT)"
    by (simp add: step)
  finally show ?case .
qed

lemma fill_valsT_all:
  "fill_valsT TypeOf vals 0 (replicate (length vals) None) = Return (map TypeOf vals)"
  by (simp add: fill_valsT_result)

lemma check_types_result:
  "length valsT = length types \<Longrightarrow>
   check_types valsT types i =
     (if \<exists>j. i \<le> j \<and> j < length types \<and> valsT ! j \<noteq> types ! j
      then Return (Some (Errorf ''mismatched types in corpus entry: %v, want %v''
                                [ArgTypes valsT, ArgTypes types]))
      else Return None)"
proof (induction valsT types i rule: check_types.induct)
  case (1 valsT types i)
  show ?case
  proof (cases "i < length types")
    case False
    then show ?thesis by (subst check_types.simps) auto
  next
    case inside: True
    show ?thesis
    proof (cases "valsT ! i \<noteq> types ! i")
      case True
      with inside "1.prems" show ?thesis by (subst check_types.simps) auto
    next
      case False
      have later: "(\<exists>j. i \<le> j \<and> j < length types \<and> valsT ! j \<noteq> types ! j) =
                   (\<exists>j. Suc i \<le> j \<and> j < length types \<and> valsT ! j \<noteq> types ! j)"
        using False by (metis Suc_leI le_neq_implies_less Suc_leD)
      have "check_types valsT types i = check_types valsT types (Suc i)"
        using inside "1.prems" False by (subst check_types.simps) simp
      also have "\<dots> =
        (if \<exists>j. Suc i \<le> j \<and> j < length types \<and> valsT ! j \<noteq> types ! j
         then Return (Some (Errorf ''mismatched types in corpus entry: %v, want %v''
                                   [ArgTypes valsT, ArgTypes types]))
         else Return None)"
        using inside "1.prems" False by (intro "1.IH") simp_all
      finally show ?thesis by (simp only: later)
    qed
  qed
qed

text \<open>
  C7. \<^verbatim>\<open>CheckCorpus\<close> returns the error with the two lengths when the lengths differ;
  with equal lengths it returns the error with all the types of \<^verbatim>\<open>vals\<close> and all of
  \<^verbatim>\<open>types\<close> when the type of some value differs from the type at its position, and nil
  when none does. It does not panic.
\<close>

theorem CheckCorpus_result:
  "(length vals \<noteq> length types \<longrightarrow>
      CheckCorpus TypeOf vals types =
        Return (Some (Errorf ''wrong number of values in corpus entry: %d, want %d''
                             [ArgInt (int (length vals)), ArgInt (int (length types))]))) \<and>
   (length vals = length types \<and> (\<exists>i < length vals. TypeOf (vals ! i) \<noteq> types ! i) \<longrightarrow>
      CheckCorpus TypeOf vals types =
        Return (Some (Errorf ''mismatched types in corpus entry: %v, want %v''
                             [ArgTypes (map TypeOf vals), ArgTypes types]))) \<and>
   (length vals = length types \<and> (\<forall>i < length vals. TypeOf (vals ! i) = types ! i) \<longrightarrow>
      CheckCorpus TypeOf vals types = Return None) \<and>
   CheckCorpus TypeOf vals types \<noteq> Panic"
proof (cases "length vals = length types")
  case False
  then show ?thesis by (simp add: CheckCorpus_def)
next
  case len: True
  have eq: "CheckCorpus TypeOf vals types =
      (if \<exists>j. j < length types \<and> map TypeOf vals ! j \<noteq> types ! j
       then Return (Some (Errorf ''mismatched types in corpus entry: %v, want %v''
                                 [ArgTypes (map TypeOf vals), ArgTypes types]))
       else Return None)"
  proof -
    have "CheckCorpus TypeOf vals types = check_types (map TypeOf vals) types 0"
      unfolding CheckCorpus_def fill_valsT_all using len by simp
    also have "\<dots> =
      (if \<exists>j. 0 \<le> j \<and> j < length types \<and> map TypeOf vals ! j \<noteq> types ! j
       then Return (Some (Errorf ''mismatched types in corpus entry: %v, want %v''
                                 [ArgTypes (map TypeOf vals), ArgTypes types]))
       else Return None)"
      using len by (intro check_types_result) simp
    finally show ?thesis by simp
  qed
  have idx: "(\<exists>j. j < length types \<and> map TypeOf vals ! j \<noteq> types ! j) =
             (\<exists>i < length vals. TypeOf (vals ! i) \<noteq> types ! i)"
    using len by auto
  show ?thesis using len by (auto simp: eq idx)
qed

theorem CheckCorpus_result_witness:
  "CheckCorpus reflect_TypeOf [GoInt 1, GoString ''a''] [Some T_int, Some T_string] = Return None \<and>
   CheckCorpus reflect_TypeOf [GoInt 1] [Some T_int, Some T_string] =
     Return (Some (Errorf ''wrong number of values in corpus entry: %d, want %d''
                          [ArgInt 1, ArgInt 2])) \<and>
   CheckCorpus reflect_TypeOf [GoInt 1, GoInt 2] [Some T_int, Some T_string] =
     Return (Some (Errorf ''mismatched types in corpus entry: %v, want %v''
                          [ArgTypes [Some T_int, Some T_int],
                           ArgTypes [Some T_int, Some T_string]]))"
proof -
  have good: "\<forall>i < length [GoInt 1, GoString ''a''].
                reflect_TypeOf ([GoInt 1, GoString ''a''] ! i) = [Some T_int, Some T_string] ! i"
    by (simp add: less_Suc_eq)
  have bad: "\<exists>i < length [GoInt 1, GoInt 2].
                reflect_TypeOf ([GoInt 1, GoInt 2] ! i) \<noteq> [Some T_int, Some T_string] ! i"
    by (rule exI [of _ 1]) simp
  from good
    CheckCorpus_result [of "[GoInt 1, GoString ''a'']" "[Some T_int, Some T_string]" reflect_TypeOf]
  have a: "CheckCorpus reflect_TypeOf [GoInt 1, GoString ''a''] [Some T_int, Some T_string] =
      Return None"
    by simp
  from CheckCorpus_result [of "[GoInt 1]" "[Some T_int, Some T_string]" reflect_TypeOf]
  have b: "CheckCorpus reflect_TypeOf [GoInt 1] [Some T_int, Some T_string] =
     Return (Some (Errorf ''wrong number of values in corpus entry: %d, want %d''
                          [ArgInt 1, ArgInt 2]))"
    by simp
  from bad
    CheckCorpus_result [of "[GoInt 1, GoInt 2]" "[Some T_int, Some T_string]" reflect_TypeOf]
  have c: "CheckCorpus reflect_TypeOf [GoInt 1, GoInt 2] [Some T_int, Some T_string] =
     Return (Some (Errorf ''mismatched types in corpus entry: %v, want %v''
                          [ArgTypes [Some T_int, Some T_int],
                           ArgTypes [Some T_int, Some T_string]]))"
    by simp
  show ?thesis using a b c by simp
qed

end
